theory Spec2Isabelle
  imports Complex_Main "HOL-Library.Monad_Syntax"
begin

section \<open>Scalars\<close>

text \<open>
  The tensors of \<^verbatim>\<open>src/kronecker.py\<close> hold 32-bit floats. Finite floats are idealised
  as real numbers (no rounding, no overflow). The one special value the source tests for,
  NaN (\<^verbatim>\<open>tf.is_nan\<close>), is kept: it is absorbing for the arithmetic, every comparison
  with it is false, and it is what the square root of a negative number and a division by
  zero give (infinities are not modelled).
\<close>

datatype tfloat = NaN | Fin real

instantiation tfloat :: "{comm_monoid_add, one, times, minus, uminus, inverse}"
begin

definition zero_tfloat :: tfloat where
  "zero_tfloat = Fin 0"

definition one_tfloat :: tfloat where
  "one_tfloat = Fin 1"

definition plus_tfloat :: "tfloat \<Rightarrow> tfloat \<Rightarrow> tfloat" where
  "plus_tfloat a b = (case a of NaN \<Rightarrow> NaN | Fin x \<Rightarrow> (case b of NaN \<Rightarrow> NaN | Fin y \<Rightarrow> Fin (x + y)))"

definition minus_tfloat :: "tfloat \<Rightarrow> tfloat \<Rightarrow> tfloat" where
  "minus_tfloat a b = (case a of NaN \<Rightarrow> NaN | Fin x \<Rightarrow> (case b of NaN \<Rightarrow> NaN | Fin y \<Rightarrow> Fin (x - y)))"

definition uminus_tfloat :: "tfloat \<Rightarrow> tfloat" where
  "uminus_tfloat a = (case a of NaN \<Rightarrow> NaN | Fin x \<Rightarrow> Fin (- x))"

definition times_tfloat :: "tfloat \<Rightarrow> tfloat \<Rightarrow> tfloat" where
  "times_tfloat a b = (case a of NaN \<Rightarrow> NaN | Fin x \<Rightarrow> (case b of NaN \<Rightarrow> NaN | Fin y \<Rightarrow> Fin (x * y)))"

definition divide_tfloat :: "tfloat \<Rightarrow> tfloat \<Rightarrow> tfloat" where
  "divide_tfloat a b = (case a of NaN \<Rightarrow> NaN | Fin x \<Rightarrow>
     (case b of NaN \<Rightarrow> NaN | Fin y \<Rightarrow> if y = 0 then NaN else Fin (x / y)))"

definition inverse_tfloat :: "tfloat \<Rightarrow> tfloat" where
  "inverse_tfloat a = (case a of NaN \<Rightarrow> NaN | Fin y \<Rightarrow> if y = 0 then NaN else Fin (1 / y))"

instance
proof
  fix a b c :: tfloat
  show "a + b + c = a + (b + c)"
    by (simp add: plus_tfloat_def split: tfloat.splits)
  show "a + b = b + a"
    by (simp add: plus_tfloat_def split: tfloat.splits)
  show "0 + a = a"
    by (simp add: plus_tfloat_def zero_tfloat_def split: tfloat.splits)
qed

end

lemma tfloat_arith [simp]:
  "Fin x + Fin y = Fin (x + y)" "NaN + a = NaN" "a + NaN = NaN"
  "Fin x - Fin y = Fin (x - y)" "NaN - a = NaN" "a - NaN = NaN"
  "Fin x * Fin y = Fin (x * y)" "NaN * a = NaN" "a * NaN = NaN"
  "- Fin x = Fin (- x)" "- NaN = NaN"
  "Fin x / Fin y = (if y = 0 then NaN else Fin (x / y))" "NaN / a = NaN" "a / NaN = NaN"
  by (simp_all add: plus_tfloat_def minus_tfloat_def times_tfloat_def uminus_tfloat_def
      divide_tfloat_def split: tfloat.splits)

fun is_nan :: "tfloat \<Rightarrow> bool" where
  "is_nan NaN = True"
| "is_nan (Fin x) = False"

text \<open>\<^verbatim>\<open>tf.greater\<close> and \<^verbatim>\<open>tf.less\<close> on scalars: false as soon as one side is NaN.\<close>

fun tf_greater :: "tfloat \<Rightarrow> tfloat \<Rightarrow> bool" where
  "tf_greater (Fin x) (Fin y) = (x > y)"
| "tf_greater _ _ = False"

fun tf_less :: "tfloat \<Rightarrow> tfloat \<Rightarrow> bool" where
  "tf_less (Fin x) (Fin y) = (x < y)"
| "tf_less _ _ = False"

fun tf_sqrt :: "tfloat \<Rightarrow> tfloat" where
  "tf_sqrt NaN = NaN"
| "tf_sqrt (Fin x) = (if x < 0 then NaN else Fin (sqrt x))"

section \<open>Tensors\<close>

text \<open>
  A rank-1 tensor is the list of its entries. A rank-2 tensor is its shape and its
  entries in row-major order, which is the order \<^verbatim>\<open>tf.reshape\<close> preserves.
  Every operation that TensorFlow rejects with an exception returns \<open>None\<close>.
\<close>

type_synonym 'a vec = "'a list"

datatype 'a tensor2 = Tensor2 (dim0: nat) (dim1: nat) (buf: "'a list")

definition at2 :: "'a tensor2 \<Rightarrow> nat \<Rightarrow> nat \<Rightarrow> 'a" where
  "at2 T i j = buf T ! (i * dim1 T + j)"

definition tf_zeros2 :: "nat \<Rightarrow> nat \<Rightarrow> ('a::zero) tensor2" where
  "tf_zeros2 r c = Tensor2 r c (replicate (r * c) 0)"

definition tf_expand_dims1 :: "'a vec \<Rightarrow> 'a tensor2" where
  "tf_expand_dims1 v = Tensor2 (length v) 1 v"

text \<open>\<^verbatim>\<open>tf.reshape(T, [-1, c])\<close>: the row count is inferred; it cannot be when \<open>c\<close> is
  zero or does not divide the number of entries.\<close>

definition tf_reshape_cols :: "'a tensor2 \<Rightarrow> nat \<Rightarrow> 'a tensor2 option" where
  "tf_reshape_cols T c =
     (let n = length (buf T)
      in if c = 0 \<or> n mod c \<noteq> 0 then None else Some (Tensor2 (n div c) c (buf T)))"

text \<open>\<^verbatim>\<open>tf.reshape(T, [r, -1])\<close>.\<close>

definition tf_reshape_rows :: "'a tensor2 \<Rightarrow> nat \<Rightarrow> 'a tensor2 option" where
  "tf_reshape_rows T r =
     (let n = length (buf T)
      in if r = 0 \<or> n mod r \<noteq> 0 then None else Some (Tensor2 r (n div r) (buf T)))"

text \<open>\<^verbatim>\<open>tf.reshape(T, [-1])\<close>.\<close>

definition tf_flatten :: "'a tensor2 \<Rightarrow> 'a vec" where
  "tf_flatten T = buf T"

definition tf_transpose :: "'a tensor2 \<Rightarrow> 'a tensor2" where
  "tf_transpose T =
     Tensor2 (dim1 T) (dim0 T) (concat (map (\<lambda>j. map (\<lambda>i. at2 T i j) [0..<dim0 T]) [0..<dim1 T]))"

definition tf_matmul :: "('a::{comm_monoid_add,times}) tensor2 \<Rightarrow> 'a tensor2 \<Rightarrow> 'a tensor2 option" where
  "tf_matmul A B =
     (if dim1 A \<noteq> dim0 B then None
      else Some (Tensor2 (dim0 A) (dim1 B)
        (concat (map (\<lambda>i. map (\<lambda>j. sum_list (map (\<lambda>l. at2 A i l * at2 B l j) [0..<dim1 A]))
                              [0..<dim1 B]) [0..<dim0 A]))))"

text \<open>A scalar times a matrix, \<^verbatim>\<open>A[i, j] * B\<close>.\<close>

definition scale2 :: "('a::times) \<Rightarrow> 'a tensor2 \<Rightarrow> 'a tensor2" where
  "scale2 a B = Tensor2 (dim0 B) (dim1 B) (map (\<lambda>x. a * x) (buf B))"

text \<open>\<^verbatim>\<open>tf.concat([A, B], 0)\<close> stacks rows and needs equal column counts;
  \<^verbatim>\<open>tf.concat([A, B], 1)\<close> joins each row of \<open>A\<close> with the same row of \<open>B\<close> and needs
  equal row counts.\<close>

definition tf_concat0 :: "'a tensor2 \<Rightarrow> 'a tensor2 \<Rightarrow> 'a tensor2 option" where
  "tf_concat0 A B =
     (if dim1 A \<noteq> dim1 B then None
      else Some (Tensor2 (dim0 A + dim0 B) (dim1 A) (buf A @ buf B)))"

definition row_of :: "'a tensor2 \<Rightarrow> nat \<Rightarrow> 'a list" where
  "row_of T i = take (dim1 T) (drop (i * dim1 T) (buf T))"

definition tf_concat1 :: "'a tensor2 \<Rightarrow> 'a tensor2 \<Rightarrow> 'a tensor2 option" where
  "tf_concat1 A B =
     (if dim0 A \<noteq> dim0 B then None
      else Some (Tensor2 (dim0 A) (dim1 A + dim1 B)
        (concat (map (\<lambda>i. row_of A i @ row_of B i) [0..<dim0 A]))))"

section \<open>Kronecker linear algebra\<close>

text \<open>\<^verbatim>\<open>kron(A, B)\<close>: the inner loop over \<open>j\<close> builds one block row, the outer loop over
  \<open>i\<close> stacks the block rows.\<close>

definition kron_row :: "('a::{zero,times}) tensor2 \<Rightarrow> 'a tensor2 \<Rightarrow> nat \<Rightarrow> 'a tensor2 option" where
  "kron_row A B i =
     fold (\<lambda>j row. do { r \<leftarrow> row; tf_concat1 r (scale2 (at2 A i j) B) })
       [0..<dim1 A] (Some (tf_zeros2 (dim0 B) 0))"

definition kron :: "('a::{zero,times}) tensor2 \<Rightarrow> 'a tensor2 \<Rightarrow> 'a tensor2 option" where
  "kron A B =
     fold (\<lambda>i out. do { out' \<leftarrow> out; row \<leftarrow> kron_row A B i; tf_concat0 out' row })
       [0..<dim0 A] (Some (tf_zeros2 0 (dim1 A * dim1 B)))"

fun kron_fold :: "('a::{zero,times}) tensor2 \<Rightarrow> 'a tensor2 list \<Rightarrow> 'a tensor2 option" where
  "kron_fold out [] = Some out"
| "kron_fold out (M # Ms) = do { out' \<leftarrow> kron out M; kron_fold out' Ms }"

text \<open>\<^verbatim>\<open>kron_list(matrices)\<close>: \<^verbatim>\<open>matrices[0]\<close> and \<^verbatim>\<open>matrices[1]\<close> raise IndexError on a
  list of fewer than two matrices.\<close>

fun kron_list :: "('a::{zero,times}) tensor2 list \<Rightarrow> 'a tensor2 option" where
  "kron_list (A # B # Ms) = do { out \<leftarrow> kron A B; kron_fold out Ms }"
| "kron_list _ = None"

text \<open>The loop of \<^verbatim>\<open>kron_mvp\<close> over \<^verbatim>\<open>enumerate(reversed(Ks))\<close>.\<close>

fun kron_mvp_loop :: "(nat \<times> ('a::{comm_monoid_add,times}) tensor2) list \<Rightarrow> 'a tensor2 \<Rightarrow> 'a tensor2 option" where
  "kron_mvp_loop [] mvp = Some mvp"
| "kron_mvp_loop ((idx, k) # rest) mvp = do {
     mvp1 \<leftarrow> (if idx > 0 then tf_reshape_rows mvp (dim0 k) else Some mvp);
     prod \<leftarrow> tf_matmul k mvp1;
     kron_mvp_loop rest (tf_transpose prod)
   }"

text \<open>\<^verbatim>\<open>kron_mvp(Ks, v)\<close>; \<^verbatim>\<open>Ks[-1]\<close> raises IndexError on the empty list.\<close>

definition kron_mvp :: "('a::{comm_monoid_add,times}) tensor2 list \<Rightarrow> 'a vec \<Rightarrow> 'a vec option" where
  "kron_mvp Ks v =
     (if Ks = [] then None
      else do {
        m0 \<leftarrow> tf_reshape_cols (tf_expand_dims1 v) (dim0 (last Ks));
        mvp \<leftarrow> kron_mvp_loop (enumerate 0 (rev Ks)) (tf_transpose m0);
        Some (tf_flatten (tf_transpose mvp))
      })"

text \<open>The dense matrix-vector product \<open>K \<cdot> v\<close> that the fast product is compared with:
  \<^verbatim>\<open>tf.matmul(K, tf.expand_dims(v, 1))\<close>, flattened.\<close>

definition dense_mvp :: "('a::{comm_monoid_add,times}) tensor2 \<Rightarrow> 'a vec \<Rightarrow> 'a vec option" where
  "dense_mvp K v = do { p \<leftarrow> tf_matmul K (tf_expand_dims1 v); Some (tf_flatten p) }"

section \<open>Elementwise operations on vectors\<close>

text \<open>
  \<^verbatim>\<open>tf.add\<close>, \<^verbatim>\<open>tf.subtract\<close>, \<^verbatim>\<open>tf.multiply\<close> on two rank-1 tensors: entry by
  entry when the lengths agree, broadcasting a one-entry vector, and an exception on any
  other pair of lengths.
\<close>

definition tf_broadcast :: "('a \<Rightarrow> 'a \<Rightarrow> 'a) \<Rightarrow> 'a vec \<Rightarrow> 'a vec \<Rightarrow> 'a vec option" where
  "tf_broadcast g xs ys =
     (if length xs = length ys then Some (map2 g xs ys)
      else if length xs = 1 then Some (map (\<lambda>y. g (hd xs) y) ys)
      else if length ys = 1 then Some (map (\<lambda>x. g x (hd ys)) xs)
      else None)"

definition tf_add :: "tfloat vec \<Rightarrow> tfloat vec \<Rightarrow> tfloat vec option" where
  "tf_add = tf_broadcast (\<lambda>a b. a + b)"

definition tf_subtract :: "tfloat vec \<Rightarrow> tfloat vec \<Rightarrow> tfloat vec option" where
  "tf_subtract = tf_broadcast (\<lambda>a b. a - b)"

definition tf_multiply :: "tfloat vec \<Rightarrow> tfloat vec \<Rightarrow> tfloat vec option" where
  "tf_multiply = tf_broadcast (\<lambda>a b. a * b)"

text \<open>A scalar (a Python float or a rank-0 tensor) times a vector.\<close>

definition scalar_mul :: "tfloat \<Rightarrow> tfloat vec \<Rightarrow> tfloat vec" where
  "scalar_mul a v = map (\<lambda>x. a * x) v"

definition tf_reduce_sum :: "tfloat vec \<Rightarrow> tfloat" where
  "tf_reduce_sum v = sum_list v"

definition tf_zeros :: "nat \<Rightarrow> tfloat vec" where
  "tf_zeros n = replicate n (Fin 0)"

text \<open>\<^verbatim>\<open>tf.boolean_mask(t, mask)\<close> keeps the entries whose mask bit is set; the two
  shapes must agree.\<close>

definition tf_boolean_mask :: "'a vec \<Rightarrow> bool list \<Rightarrow> 'a vec option" where
  "tf_boolean_mask xs m =
     (if length xs = length m then Some (map fst (filter snd (zip xs m))) else None)"

section \<open>Conjugate gradient solver\<close>

text \<open>
  \<^verbatim>\<open>CGOptimizer\<close> holds the callback \<^verbatim>\<open>cg_prod\<close>; the callback may raise, so it returns
  an option. The loop state is the tuple \<^verbatim>\<open>[p, count, x, r, max_it]\<close> of
  \<^verbatim>\<open>tf.while_loop\<close>. The attributes \<^verbatim>\<open>self.Bp\<close> and \<^verbatim>\<open>self.p\<close> that \<^verbatim>\<open>cg_body\<close> stores
  are never read and are left out.
\<close>

type_synonym cg_state = "tfloat vec \<times> int \<times> tfloat vec \<times> tfloat vec \<times> int"

fun cg_converged :: "cg_state \<Rightarrow> bool option" where
  "cg_converged (p, count, x, r, max_it) = do {
     rr \<leftarrow> tf_multiply r r;
     Some (tf_greater (tf_reduce_sum rr) (Fin (1 / 100000)) \<and> count < max_it)
   }"

fun cg_body :: "(tfloat vec \<Rightarrow> tfloat vec option) \<Rightarrow> cg_state \<Rightarrow> cg_state option" where
  "cg_body cg_prod (p, count, x, r, max_it) = do {
     let count = count + 1;
     Bp \<leftarrow> cg_prod p;
     rr \<leftarrow> tf_multiply r r;
     let norm_k = tf_reduce_sum rr;
     pBp \<leftarrow> tf_multiply p Bp;
     let alpha = norm_k / tf_reduce_sum pBp;
     x \<leftarrow> tf_add x (scalar_mul alpha p);
     r \<leftarrow> tf_subtract r (scalar_mul alpha Bp);
     rr' \<leftarrow> tf_multiply r r;
     if tf_less (tf_reduce_sum rr') (Fin (1 / 100000)) then Some (p, count, x, r, max_it)
     else do {
       let norm_next = tf_reduce_sum rr';
       let beta = norm_next / norm_k;
       p \<leftarrow> tf_add r (scalar_mul beta p);
       Some (p, count, x, r, max_it)
     }
   }"

lemma cg_body_count:
  assumes "cg_body cg_prod (p, count, x, r, max_it) = Some (p', count', x', r', max_it')"
  shows "count' = count + 1 \<and> max_it' = max_it"
  using assms by (auto simp: Let_def split: bind_splits if_splits)

text \<open>\<^verbatim>\<open>tf.while_loop(self.cg_converged, self.cg_body, [p, count, x, r, max_it])\<close>.\<close>

function cg_loop :: "(tfloat vec \<Rightarrow> tfloat vec option) \<Rightarrow> cg_state \<Rightarrow> cg_state option" where
  "cg_loop cg_prod st =
     (case cg_converged st of
        None \<Rightarrow> None
      | Some False \<Rightarrow> Some st
      | Some True \<Rightarrow> (case cg_body cg_prod st of None \<Rightarrow> None | Some st' \<Rightarrow> cg_loop cg_prod st'))"
  by pat_completeness auto
termination
  apply (relation "measure (\<lambda>(cg_prod, (p, count, x, r, max_it)). nat (max_it - count))")
  apply simp
  apply (auto dest!: cg_body_count split: bind_splits)
  done

declare cg_loop.simps [simp del]

text \<open>
  \<^verbatim>\<open>cg(b, x=None, z=None, max_it=None)\<close>. No caller in the repository passes \<^verbatim>\<open>x\<close> or
  \<^verbatim>\<open>z\<close>; \<open>cg_from\<close> is the method from the line \<^verbatim>\<open>r = b - self.cg_prod(x)\<close> on, for
  a given start \<open>x\<close>, and \<open>cg\<close> is the call with \<^verbatim>\<open>x=None\<close>, which starts from
  \<^verbatim>\<open>tf.zeros(shape=[n])\<close>.
\<close>

definition cg_from :: "(tfloat vec \<Rightarrow> tfloat vec option) \<Rightarrow> tfloat vec \<Rightarrow> tfloat vec \<Rightarrow> int \<Rightarrow> cg_state option" where
  "cg_from cg_prod b x max_it = do {
     let count = 0;
     Ax \<leftarrow> cg_prod x;
     r \<leftarrow> tf_subtract b Ax;
     let p = r;
     cg_loop cg_prod (p, count, x, r, max_it)
   }"

definition cg_max_it :: "tfloat vec \<Rightarrow> int option \<Rightarrow> int" where
  "cg_max_it b max_it = (case max_it of None \<Rightarrow> 2 * int (length b) | Some m \<Rightarrow> m)"

definition cg :: "(tfloat vec \<Rightarrow> tfloat vec option) \<Rightarrow> tfloat vec \<Rightarrow> int option \<Rightarrow> tfloat vec option" where
  "cg cg_prod b max_it = do {
     let n = length b;
     fin \<leftarrow> cg_from cg_prod b (tf_zeros n) (cg_max_it b max_it);
     Some (fst (snd (snd fin)))
   }"

section \<open>Kronecker inference engine\<close>

text \<open>
  The attributes of \<^verbatim>\<open>KroneckerSolver\<close> that the Newton iteration, the line search and
  the marginal likelihood read or write. The likelihood is a collaborator: its
  \<^verbatim>\<open>log_like\<close> and the two derivative functions that \<^verbatim>\<open>__init__\<close> obtains from automatic
  differentiation are fields. \<^verbatim>\<open>self.b\<close> and \<^verbatim>\<open>self.z\<close> do not exist before the first
  \<^verbatim>\<open>step\<close>. The attributes \<^verbatim>\<open>Cp\<close>, \<^verbatim>\<open>first\<close>, \<^verbatim>\<open>second\<close>, \<^verbatim>\<open>third\<close> that
  \<^verbatim>\<open>cg_prod_step\<close> stores are never read and are left out, as are \<^verbatim>\<open>verbose\<close> and
  its printing.
\<close>

record solver =
  self_y :: "tfloat vec"
  self_mu :: "tfloat vec"
  self_log_like :: "tfloat vec \<Rightarrow> tfloat vec \<Rightarrow> tfloat vec"
  self_grad_func :: "tfloat vec \<Rightarrow> tfloat vec \<Rightarrow> tfloat vec"
  self_hess_func :: "tfloat vec \<Rightarrow> tfloat vec \<Rightarrow> tfloat vec"
  self_Ks :: "tfloat tensor2 list"
  self_k_diag :: "tfloat vec option"
  self_precondition :: "tfloat vec option"
  self_mask :: "bool list option"
  self_alpha :: "tfloat vec"
  self_W :: "tfloat vec"
  self_grads :: "tfloat vec"
  self_f :: "tfloat vec"
  self_tau :: tfloat
  self_b :: "tfloat vec option"
  self_z :: "tfloat vec option"

text \<open>\<^verbatim>\<open>sys.float_info.max\<close>.\<close>

definition float_info_max :: real where
  "float_info_max = 2 ^ 1024 - 2 ^ 971"

text \<open>\<^verbatim>\<open>tf.clip_by_value(t, 0, 1)\<close> on one entry.\<close>

fun clip01 :: "tfloat \<Rightarrow> tfloat" where
  "clip01 NaN = NaN"
| "clip01 (Fin x) = Fin (max 0 (min 1 x))"

text \<open>\<^verbatim>\<open>__init__\<close>, for \<open>n\<close> grid points (\<^verbatim>\<open>X.shape[0]\<close>) and with the list \<open>Ks\<close> that
  \<^verbatim>\<open>construct_Ks\<close> obtains from the kernel.\<close>

definition solver_init ::
  "tfloat vec \<Rightarrow> tfloat tensor2 list \<Rightarrow> (tfloat vec \<Rightarrow> tfloat vec \<Rightarrow> tfloat vec) \<Rightarrow>
   (tfloat vec \<Rightarrow> tfloat vec \<Rightarrow> tfloat vec) \<Rightarrow> (tfloat vec \<Rightarrow> tfloat vec \<Rightarrow> tfloat vec) \<Rightarrow>
   nat \<Rightarrow> tfloat vec \<Rightarrow> tfloat \<Rightarrow> tfloat vec option \<Rightarrow> bool list option \<Rightarrow> solver" where
  "solver_init mu Ks log_like grad_func hess_func n y tau k_diag msk =
     \<lparr> self_y = y, self_mu = mu, self_log_like = log_like,
       self_grad_func = grad_func, self_hess_func = hess_func,
       self_Ks = Ks, self_k_diag = k_diag,
       self_precondition =
         (case k_diag of None \<Rightarrow> None
          | Some kd \<Rightarrow> Some (map (\<lambda>k. clip01 (Fin 1 / tf_sqrt k)) kd)),
       self_mask = msk,
       self_alpha = tf_zeros n, self_W = tf_zeros n, self_grads = tf_zeros n,
       self_f = mu, self_tau = tau, self_b = None, self_z = None \<rparr>"

text \<open>\<^verbatim>\<open>eval_obj(f, alpha)\<close>.\<close>

definition eval_obj :: "solver \<Rightarrow> tfloat vec \<Rightarrow> tfloat vec \<Rightarrow> tfloat option" where
  "eval_obj s f alpha =
     (case self_mask s of
        Some msk \<Rightarrow> do {
          y_lim \<leftarrow> tf_boolean_mask (self_y s) msk;
          f_lim \<leftarrow> tf_boolean_mask f msk;
          alpha_lim \<leftarrow> tf_boolean_mask alpha msk;
          mu_lim \<leftarrow> tf_boolean_mask (self_mu s) msk;
          d \<leftarrow> tf_subtract f_lim mu_lim;
          ad \<leftarrow> tf_multiply alpha_lim d;
          Some (- tf_reduce_sum (self_log_like s y_lim f_lim) + Fin (1 / 2) * tf_reduce_sum ad)
        }
      | None \<Rightarrow> do {
          d \<leftarrow> tf_subtract f (self_mu s);
          ad \<leftarrow> tf_multiply alpha d;
          Some (- tf_reduce_sum (self_log_like s (self_y s) f) + Fin (1 / 2) * tf_reduce_sum ad)
        })"

text \<open>\<^verbatim>\<open>cg_prod_step(p)\<close>; \<^verbatim>\<open>tf.multiply(self.W, self.k_diag)\<close> raises when \<^verbatim>\<open>k_diag\<close> is
  \<^verbatim>\<open>None\<close>.\<close>

definition cg_prod_step :: "solver \<Rightarrow> tfloat vec \<Rightarrow> tfloat vec option" where
  "cg_prod_step s p =
     (let sqrtW = map tf_sqrt (self_W s) in
      case self_precondition s of
        None \<Rightarrow> do {
          wp \<leftarrow> tf_multiply sqrtW p;
          kp \<leftarrow> kron_mvp (self_Ks s) wp;
          t \<leftarrow> tf_multiply sqrtW kp;
          tf_add p t
        }
      | Some precondition \<Rightarrow> do {
          Cp \<leftarrow> tf_multiply precondition p;
          first \<leftarrow> tf_multiply precondition Cp;
          k_diag \<leftarrow> self_k_diag s;
          wk \<leftarrow> tf_multiply (self_W s) k_diag;
          pwk \<leftarrow> tf_multiply precondition wk;
          second \<leftarrow> tf_multiply pwk Cp;
          pw \<leftarrow> tf_multiply precondition sqrtW;
          wc \<leftarrow> tf_multiply sqrtW Cp;
          kc \<leftarrow> kron_mvp (self_Ks s) wc;
          third \<leftarrow> tf_multiply pw kc;
          fs \<leftarrow> tf_add first second;
          tf_add fs third
        })"

subsection \<open>Line search\<close>

text \<open>The loop variables \<^verbatim>\<open>[obj_prev, obj_search, min_obj, delta_alpha, step_size,
  max_it, t, opt_step]\<close>.\<close>

type_synonym ls_state = "tfloat \<times> tfloat \<times> tfloat \<times> tfloat vec \<times> tfloat \<times> int \<times> int \<times> tfloat"

text \<open>\<^verbatim>\<open>tf.squeeze\<close> turns a one-entry vector into a rank-0 tensor, and \<^verbatim>\<open>kron_mvp\<close>, which
  is the next to use \<^verbatim>\<open>alpha_search\<close>, raises on it (\<^verbatim>\<open>tf.expand_dims(v, 1)\<close> of a scalar).
  On any other vector the squeeze changes nothing.\<close>

definition squeeze_vec :: "'a vec \<Rightarrow> 'a vec option" where
  "squeeze_vec v = (if length v = 1 then None else Some v)"

text \<open>The candidate function values of \<^verbatim>\<open>search_step\<close>: \<^verbatim>\<open>f_search\<close>, from
  \<^verbatim>\<open>alpha_search\<close>. The \<^verbatim>\<open>tf.squeeze\<close> of the product changes nothing here: a one-entry
  vector and a scalar broadcast alike in the addition that follows.\<close>

definition search_f :: "solver \<Rightarrow> tfloat vec \<Rightarrow> tfloat vec option" where
  "search_f s alpha_search = do {
     ka \<leftarrow> kron_mvp (self_Ks s) alpha_search;
     f_search \<leftarrow> tf_add ka (self_mu s);
     (case self_mask s of
        None \<Rightarrow> Some f_search
      | Some msk \<Rightarrow> do {
          k_diag \<leftarrow> self_k_diag s;
          c \<leftarrow> tf_multiply k_diag alpha_search;
          tf_add f_search c
        })
   }"

text \<open>The candidate objective of \<^verbatim>\<open>search_step\<close>: \<^verbatim>\<open>obj_search\<close>, for one step size.\<close>

definition search_obj :: "solver \<Rightarrow> tfloat vec \<Rightarrow> tfloat \<Rightarrow> tfloat option" where
  "search_obj s delta_alpha step_size = do {
     a \<leftarrow> tf_add (self_alpha s) (scalar_mul step_size delta_alpha);
     alpha_search \<leftarrow> squeeze_vec a;
     f_search \<leftarrow> search_f s alpha_search;
     eval_obj s f_search alpha_search
   }"

text \<open>\<^verbatim>\<open>search_step\<close>. Like every method run by \<^verbatim>\<open>tf.while_loop\<close> here it takes the
  engine and returns it with the new loop variables.\<close>

fun search_step :: "solver \<Rightarrow> ls_state \<Rightarrow> (solver \<times> ls_state) option" where
  "search_step s (obj_prev, obj_search, min_obj, delta_alpha, step_size, max_it, t, opt_step) = do {
     obj_search \<leftarrow> search_obj s delta_alpha step_size;
     let opt_step = (if tf_greater min_obj obj_search then step_size else opt_step);
     let min_obj = (if tf_greater min_obj obj_search then obj_search else min_obj);
     let step_size = self_tau s * step_size;
     let t = t + 1;
     Some (s, (obj_prev, obj_search, min_obj, delta_alpha, step_size, max_it, t, opt_step))
   }"

text \<open>\<^verbatim>\<open>converge_line\<close>: the value \<^verbatim>\<open>tf.while_loop\<close> tests, true to run the body again.\<close>

fun converge_line :: "ls_state \<Rightarrow> bool" where
  "converge_line (obj_prev, obj_search, min_obj, delta_alpha, step_size, max_it, t, opt_step) =
     (t < max_it \<and> tf_less (obj_prev - obj_search) (step_size * Fin (of_int t)))"

lemma search_step_t:
  assumes "search_step s (obj_prev, obj_search, min_obj, delta_alpha, step_size, max_it, t, opt_step)
           = Some (s', (obj_prev', obj_search', min_obj', delta_alpha', step_size', max_it', t', opt_step'))"
  shows "t' = t + 1 \<and> max_it' = max_it"
  using assms by (auto simp: Let_def split: bind_splits)

function line_loop :: "solver \<Rightarrow> ls_state \<Rightarrow> (solver \<times> ls_state) option" where
  "line_loop s st =
     (if converge_line st
      then (case search_step s st of None \<Rightarrow> None | Some (s', st') \<Rightarrow> line_loop s' st')
      else Some (s, st))"
  by pat_completeness auto
termination
  apply (relation "measure (\<lambda>(s, (obj_prev, obj_search, min_obj, delta_alpha, step_size, max_it, t, opt_step)). nat (max_it - t))")
   apply simp
  apply (auto dest!: search_step_t)
  done

declare line_loop.simps [simp del]

text \<open>\<^verbatim>\<open>line_search(delta_alpha, obj_prev, max_it)\<close> returns \<^verbatim>\<open>res[-1]\<close>, the last loop
  variable.\<close>

definition line_search :: "solver \<Rightarrow> tfloat vec \<Rightarrow> tfloat \<Rightarrow> int \<Rightarrow> (solver \<times> tfloat) option" where
  "line_search s delta_alpha obj_prev max_it = do {
     let obj_search = Fin float_info_max;
     let min_obj = obj_prev;
     let step_size = Fin 2;
     let opt_step = Fin 0;
     let t = 1;
     (s', res) \<leftarrow> line_loop s (obj_prev, obj_search, min_obj, delta_alpha, step_size, max_it, t, opt_step);
     Some (s', snd (snd (snd (snd (snd (snd (snd res)))))))
   }"

subsection \<open>Newton iteration\<close>

text \<open>\<^verbatim>\<open>tf.where(cond, a, b)\<close> on three tensors of one shape.\<close>

definition tf_where :: "bool list \<Rightarrow> 'a vec \<Rightarrow> 'a vec \<Rightarrow> 'a vec" where
  "tf_where c xs ys = map (\<lambda>(c, x, y). if c then x else y) (zip c (zip xs ys))"

definition tf_ones_like :: "tfloat vec \<Rightarrow> tfloat vec" where
  "tf_ones_like v = replicate (length v) (Fin 1)"

text \<open>The loop variables \<^verbatim>\<open>[max_it, it, prev, delta]\<close>.\<close>

type_synonym newton_state = "int \<times> int \<times> tfloat \<times> tfloat"

text \<open>The first lines of \<^verbatim>\<open>step\<close>: the function values derived from \<^verbatim>\<open>self.alpha\<close>.\<close>

definition step_f :: "solver \<Rightarrow> tfloat vec option" where
  "step_f s = do {
     ka \<leftarrow> kron_mvp (self_Ks s) (self_alpha s);
     f \<leftarrow> tf_add ka (self_mu s);
     (case self_k_diag s of
        None \<Rightarrow> Some f
      | Some k_diag \<Rightarrow> do { c \<leftarrow> tf_multiply (self_alpha s) k_diag; tf_add f c })
   }"

text \<open>The last lines of \<^verbatim>\<open>step\<close>: the update of \<^verbatim>\<open>self.alpha\<close> and its NaN clamp.\<close>

definition step_update :: "solver \<Rightarrow> tfloat vec \<Rightarrow> tfloat \<Rightarrow> solver option" where
  "step_update s delta_alpha step_size = do {
     alpha \<leftarrow> tf_add (self_alpha s) (map (\<lambda>d. d * step_size) delta_alpha);
     let s = s\<lparr>self_alpha := alpha\<rparr>;
     let s = s\<lparr>self_alpha :=
       tf_where (map is_nan (self_alpha s))
                (map (\<lambda>one. one * Fin (1 / 1000000000)) (tf_ones_like (self_alpha s)))
                (self_alpha s)\<rparr>;
     Some s
   }"

text \<open>\<^verbatim>\<open>step(max_it, it, prev, delta)\<close>.\<close>

fun step :: "solver \<Rightarrow> newton_state \<Rightarrow> (solver \<times> newton_state) option" where
  "step s (max_it, it, prev, delta) = do {
     f \<leftarrow> step_f s;
     let s = s\<lparr>self_f := f\<rparr>;
     psi \<leftarrow> eval_obj s (self_f s) (self_alpha s);
     let s = s\<lparr>self_grads := self_grad_func s (self_y s) (self_f s)\<rparr>;
     let hess = self_hess_func s (self_y s) (self_f s);
     let s = s\<lparr>self_W := map uminus hess\<rparr>;
     fm \<leftarrow> tf_subtract (self_f s) (self_mu s);
     wf \<leftarrow> tf_multiply (self_W s) fm;
     b \<leftarrow> tf_add wf (self_grads s);
     let s = s\<lparr>self_b := Some b\<rparr>;
     wb \<leftarrow> tf_multiply (map (\<lambda>w. Fin 1 / tf_sqrt w) (self_W s)) b;
     z \<leftarrow> (case self_precondition s of
            Some precondition \<Rightarrow> do {
              rhs \<leftarrow> tf_multiply precondition wb;
              cg (cg_prod_step s) rhs None
            }
          | None \<Rightarrow> cg (cg_prod_step s) wb None);
     let s = s\<lparr>self_z := Some z\<rparr>;
     wz \<leftarrow> tf_multiply (map tf_sqrt (self_W s)) z;
     delta_alpha \<leftarrow> tf_subtract wz (self_alpha s);
     (s, step_size) \<leftarrow> line_search s delta_alpha psi 20;
     let delta = prev - psi;
     let prev = psi;
     s \<leftarrow> step_update s delta_alpha step_size;
     let it = it + 1;
     Some (s, (max_it, it, prev, delta))
   }"

text \<open>\<^verbatim>\<open>conv\<close>: true to run another Newton step.\<close>

fun conv :: "newton_state \<Rightarrow> bool" where
  "conv (max_it, it, prev, delta) = (it < max_it \<and> tf_greater delta (Fin (1 / 100000)))"

lemma step_it:
  assumes "step s (max_it, it, prev, delta) = Some (s', (max_it', it', prev', delta'))"
  shows "it' = it + 1 \<and> max_it' = max_it"
  using assms by (auto simp: Let_def split: bind_splits prod.splits)

function newton_loop :: "solver \<Rightarrow> newton_state \<Rightarrow> (solver \<times> newton_state) option" where
  "newton_loop s st =
     (if conv st
      then (case step s st of None \<Rightarrow> None | Some (s', st') \<Rightarrow> newton_loop s' st')
      else Some (s, st))"
  by pat_completeness auto
termination
  apply (relation "measure (\<lambda>(s, (max_it, it, prev, delta)). nat (max_it - it))")
   apply simp
  apply (auto dest!: step_it)
  done

declare newton_loop.simps [simp del]

text \<open>\<^verbatim>\<open>run(max_it)\<close>. After the loop \<^verbatim>\<open>tf.multiply(self.alpha, self.k_diag)\<close> raises when
  \<^verbatim>\<open>k_diag\<close> is \<^verbatim>\<open>None\<close>.\<close>

definition run :: "solver \<Rightarrow> int \<Rightarrow> (solver \<times> newton_state) option" where
  "run s max_it = do {
     let delta = Fin float_info_max;
     let prev = Fin float_info_max;
     let it = 0;
     (s, out) \<leftarrow> newton_loop s (max_it, it, prev, delta);
     ka \<leftarrow> kron_mvp (self_Ks s) (self_alpha s);
     f \<leftarrow> tf_add ka (self_mu s);
     let s = s\<lparr>self_f := f\<rparr>;
     k_diag \<leftarrow> self_k_diag s;
     c \<leftarrow> tf_multiply (self_alpha s) k_diag;
     fc \<leftarrow> tf_add (self_f s) c;
     let s = s\<lparr>self_grads := self_grad_func s (self_y s) fc\<rparr>;
     Some (s, out)
   }"

subsection \<open>Marginal likelihood\<close>

text \<open>\<^verbatim>\<open>tf.log\<close> on one entry; the logarithm of a number that is not positive is not a
  finite float.\<close>

fun tf_log :: "tfloat \<Rightarrow> tfloat" where
  "tf_log NaN = NaN"
| "tf_log (Fin x) = (if x \<le> 0 then NaN else Fin (ln x))"

text \<open>The value that \<^verbatim>\<open>marginal\<close> returns once the eigenvalue vector \<^verbatim>\<open>eig_K\<close> is
  there: its masked and its unmasked \<^verbatim>\<open>return\<close>. \<^verbatim>\<open>tf.boolean_mask\<close> raises on the scalar
  that \<^verbatim>\<open>tf.squeeze\<close> makes of a one-entry \<^verbatim>\<open>eig_K\<close>.\<close>

definition marginal_value :: "solver \<Rightarrow> tfloat vec \<Rightarrow> tfloat option" where
  "marginal_value s eig_K =
     (case self_mask s of
        Some msk \<Rightarrow> do {
          y_lim \<leftarrow> tf_boolean_mask (self_y s) msk;
          f_lim \<leftarrow> tf_boolean_mask (self_f s) msk;
          alpha_lim \<leftarrow> tf_boolean_mask (self_alpha s) msk;
          mu_lim \<leftarrow> tf_boolean_mask (self_mu s) msk;
          W_lim \<leftarrow> tf_boolean_mask (self_W s) msk;
          eig_K' \<leftarrow> squeeze_vec eig_K;
          eig_k_lim \<leftarrow> tf_boolean_mask eig_K' msk;
          d \<leftarrow> tf_subtract f_lim mu_lim;
          ad \<leftarrow> tf_multiply alpha_lim d;
          ew \<leftarrow> tf_multiply eig_k_lim W_lim;
          Some (Fin (- (1 / 2)) * tf_reduce_sum ad
                - Fin (1 / 2) * tf_reduce_sum (map (\<lambda>x. tf_log (Fin 1 + x)) ew)
                + tf_reduce_sum (self_log_like s y_lim f_lim))
        }
      | None \<Rightarrow> do {
          d \<leftarrow> tf_subtract (self_f s) (self_mu s);
          ad \<leftarrow> tf_multiply (self_alpha s) d;
          ew \<leftarrow> tf_multiply eig_K (self_W s);
          Some (Fin (- (1 / 2)) * tf_reduce_sum ad
                - Fin (1 / 2) * tf_reduce_sum (map (\<lambda>x. tf_log (Fin 1 + x)) ew)
                + tf_reduce_sum (self_log_like s (self_y s) (self_f s)))
        })"

text \<open>\<^verbatim>\<open>marginal(Ks_new)\<close>. The eigenvalue solver \<^verbatim>\<open>tf.self_adjoint_eig\<close> is library
  code; its first component, the vector of eigenvalues, is a parameter.\<close>

definition marginal ::
  "(tfloat tensor2 \<Rightarrow> tfloat vec option) \<Rightarrow> solver \<Rightarrow> tfloat tensor2 list option \<Rightarrow> tfloat option" where
  "marginal self_adjoint_eig s Ks_new = do {
     let Ks = (case Ks_new of None \<Rightarrow> self_Ks s | Some Ks' \<Rightarrow> Ks');
     eigs \<leftarrow> those (map (\<lambda>K. map_option tf_expand_dims1 (self_adjoint_eig K)) Ks);
     E \<leftarrow> kron_list eigs;
     let eig_K = tf_flatten E;
     marginal_value s eig_K
   }"

text \<open>The marginal likelihood in the words of the specification, "computed by explicitly
  forming \<open>K = kron_list(Ks)\<close> and its eigendecomposition": the same value with the
  eigenvalues of the dense \<open>K\<close> for \<^verbatim>\<open>eig_K\<close>.\<close>

definition marginal_explicit ::
  "(tfloat tensor2 \<Rightarrow> tfloat vec option) \<Rightarrow> solver \<Rightarrow> tfloat option" where
  "marginal_explicit self_adjoint_eig s = do {
     K \<leftarrow> kron_list (self_Ks s);
     eig_K \<leftarrow> self_adjoint_eig K;
     marginal_value s eig_K
   }"

section \<open>Notions used to state the properties\<close>

text \<open>The step size that the line search tries in its \<open>k\<close>-th backtracking step: it
  starts at \<open>2.0\<close> and is multiplied by \<^verbatim>\<open>self.tau\<close> after every step.\<close>

definition step_size_at :: "tfloat \<Rightarrow> nat \<Rightarrow> tfloat" where
  "step_size_at tau k = ((\<lambda>step_size. tau * step_size) ^^ k) (Fin 2)"

text \<open>A candidate step size improves on \<open>psi\<close> when its objective, as \<^verbatim>\<open>search_step\<close>
  computes it, is strictly below \<open>psi\<close>.\<close>

definition ls_improves :: "solver \<Rightarrow> tfloat vec \<Rightarrow> tfloat \<Rightarrow> tfloat \<Rightarrow> bool" where
  "ls_improves s delta_alpha psi step_size =
     (\<exists>obj. search_obj s delta_alpha step_size = Some obj \<and> tf_greater psi obj)"

text \<open>The invariant of the loop of the line search, for the objective \<open>psi\<close> before the
  step: \<open>t - 1\<close> candidates have been tried, and \<^verbatim>\<open>opt_step\<close> is \<open>0.0\<close> with no candidate
  below \<open>psi\<close> so far, or the candidate whose objective is the running minimum.\<close>

definition ls_inv :: "solver \<Rightarrow> tfloat \<Rightarrow> ls_state \<Rightarrow> bool" where
  "ls_inv s psi st =
     (case st of (obj_prev, obj_search, min_obj, delta_alpha, step_size, max_it, t, opt_step) \<Rightarrow>
        1 \<le> t \<and> step_size = step_size_at (self_tau s) (nat (t - 1)) \<and>
        ((opt_step = Fin 0 \<and> min_obj = psi \<and>
            (\<forall>k<nat (t - 1). \<not> ls_improves s delta_alpha psi (step_size_at (self_tau s) k)))
         \<or> (\<exists>k<nat (t - 1). opt_step = step_size_at (self_tau s) k \<and>
               search_obj s delta_alpha opt_step = Some min_obj \<and> tf_greater psi min_obj)))"

text \<open>An engine on a one-dimensional grid of two points with an identity kernel matrix,
  no mask and no \<^verbatim>\<open>k_diag\<close>, as \<^verbatim>\<open>__init__\<close> leaves it, and a quadratic likelihood.\<close>

definition example_log_like :: "tfloat vec \<Rightarrow> tfloat vec \<Rightarrow> tfloat vec" where
  "example_log_like y f = map2 (\<lambda>a b. - ((a - b) * (a - b))) y f"

definition example_solver :: solver where
  "example_solver =
     \<lparr> self_y = [Fin 1, Fin 1], self_mu = [Fin 0, Fin 0],
       self_log_like = example_log_like,
       self_grad_func = (\<lambda>y f. map2 (\<lambda>a b. Fin 2 * (a - b)) y f),
       self_hess_func = (\<lambda>y f. map (\<lambda>a. Fin (- 2)) f),
       self_Ks = [Tensor2 2 2 [Fin 1, Fin 0, Fin 0, Fin 1]],
       self_k_diag = None, self_precondition = None, self_mask = None,
       self_alpha = [Fin 0, Fin 0], self_W = [Fin 0, Fin 0], self_grads = [Fin 0, Fin 0],
       self_f = [Fin 0, Fin 0], self_tau = Fin (1 / 2), self_b = None, self_z = None \<rparr>"

text \<open>The same engine constructed with \<^verbatim>\<open>k_diag = [1, 1]\<close>, for which \<^verbatim>\<open>__init__\<close>
  sets the preconditioner \<open>clip(1 / sqrt(k_diag), 0, 1) = [1, 1]\<close>.\<close>

definition example_solver_k_diag :: solver where
  "example_solver_k_diag =
     example_solver\<lparr>self_k_diag := Some [Fin 1, Fin 1], self_precondition := Some [Fin 1, Fin 1]\<rparr>"

text \<open>The 2 x 2 identity matrix.\<close>

definition I2 :: "tfloat tensor2" where
  "I2 = Tensor2 2 2 [Fin 1, Fin 0, Fin 0, Fin 1]"







text \<open>The row-major entries of the \<open>m \<times> n\<close> matrix whose entry \<open>(i, j)\<close> is \<open>g i j\<close>.\<close>

definition tab :: "nat \<Rightarrow> nat \<Rightarrow> (nat \<Rightarrow> nat \<Rightarrow> 'a) \<Rightarrow> 'a list" where
  "tab m n g = concat (map (\<lambda>i. map (g i) [0..<n]) [0..<m])"

text \<open>The entry \<open>(r, c)\<close> of the Kronecker product of an \<open>a \<times> a\<close> matrix with entries \<open>A\<close>
  and a \<open>b \<times> b\<close> matrix with entries \<open>B\<close>.\<close>

definition kron_entry :: "nat \<Rightarrow> nat \<Rightarrow> tfloat list \<Rightarrow> tfloat list \<Rightarrow> nat \<Rightarrow> nat \<Rightarrow> tfloat" where
  "kron_entry a b A B r c = A ! ((r div b) * a + c div b) * B ! ((r mod b) * b + c mod b)"

text \<open>Two lists with the same entries, each as often in one as in the other.\<close>

definition same_entries :: "'a list \<Rightarrow> 'a list \<Rightarrow> bool" where
  "same_entries xs ys = (\<forall>x \<in> set (xs @ ys). count_list xs x = count_list ys x)"

text \<open>The eigenvalue solver on diagonal matrices: the eigenvalues of a diagonal matrix
  are its diagonal entries, and \<^verbatim>\<open>tf.self_adjoint_eig\<close> returns eigenvalues in
  non-decreasing order. Other matrices are outside this solver.\<close>

fun fin_val :: "tfloat \<Rightarrow> real option" where
  "fin_val NaN = None"
| "fin_val (Fin x) = Some x"

definition diagonal_eig :: "tfloat tensor2 \<Rightarrow> tfloat vec option" where
  "diagonal_eig K =
     (if dim0 K = dim1 K \<and> length (buf K) = dim0 K * dim1 K
         \<and> (\<forall>i<dim0 K. \<forall>j<dim1 K. i = j \<or> at2 K i j = Fin 0)
      then map_option (\<lambda>d. map Fin (sort d)) (those (map (\<lambda>i. fin_val (at2 K i i)) [0..<dim0 K]))
      else None)"

text \<open>What \<^verbatim>\<open>tf.self_adjoint_eig\<close> computes. \<open>d\<close> is a list of eigenvalues of the square
  matrix \<open>K\<close> when \<open>K = V diag(d) V\<^sup>T\<close> for a matrix \<open>V\<close> with orthonormal columns, the
  eigenvectors; the solver returns the eigenvalues in non-decreasing order. An eigenvalue
  solver is valid on a list of matrices when it returns such a vector for each.\<close>

definition orthonormal :: "nat \<Rightarrow> (nat \<Rightarrow> nat \<Rightarrow> real) \<Rightarrow> bool" where
  "orthonormal n V = (\<forall>l<n. \<forall>m<n. (\<Sum>i<n. V i l * V i m) = (if l = m then 1 else 0))"

definition eigen_decomposition :: "tfloat tensor2 \<Rightarrow> real list \<Rightarrow> bool" where
  "eigen_decomposition K d =
     (dim0 K = length d \<and> dim1 K = length d \<and> length (buf K) = length d * length d \<and>
      (\<exists>V. orthonormal (length d) V \<and>
           (\<forall>i<length d. \<forall>j<length d. at2 K i j = Fin (\<Sum>l<length d. V i l * d ! l * V j l))))"

definition eigen_solution :: "tfloat tensor2 \<Rightarrow> tfloat vec \<Rightarrow> bool" where
  "eigen_solution K e = (\<exists>d. e = map Fin d \<and> sorted d \<and> eigen_decomposition K d)"

definition valid_eig :: "(tfloat tensor2 \<Rightarrow> tfloat vec option) \<Rightarrow> tfloat tensor2 list \<Rightarrow> bool" where
  "valid_eig self_adjoint_eig As = list_all (\<lambda>A. \<exists>e. self_adjoint_eig A = Some e \<and> eigen_solution A e) As"

text \<open>The eigenvalue vector \<^verbatim>\<open>eig_K\<close> that \<open>marginal\<close> builds in its first lines, before the
  squeeze: the flattened Kronecker product of the per-dimension eigenvalue columns.\<close>

definition kron_eigs :: "(tfloat tensor2 \<Rightarrow> tfloat vec option) \<Rightarrow> tfloat tensor2 list \<Rightarrow> tfloat vec option" where
  "kron_eigs self_adjoint_eig Ks = do {
     eigs \<leftarrow> those (map (\<lambda>K. map_option tf_expand_dims1 (self_adjoint_eig K)) Ks);
     E \<leftarrow> kron_list eigs;
     Some (tf_flatten E)
   }"

text \<open>A vector in non-decreasing order: no entry is greater than a later one.\<close>

definition non_decreasing :: "tfloat vec \<Rightarrow> bool" where
  "non_decreasing v = sorted_wrt (\<lambda>a b. \<not> tf_greater a b) v"

text \<open>Real matrices as functions of the two indices: \<open>M = V diag(d) V\<^sup>T\<close> on the first \<open>n\<close>
  indices, the powers of a matrix, the Kronecker product with a matrix of \<open>b\<close> rows and
  columns, and the Kronecker product of two vectors.\<close>

definition spectral :: "nat \<Rightarrow> (nat \<Rightarrow> nat \<Rightarrow> real) \<Rightarrow> real list \<Rightarrow> (nat \<Rightarrow> nat \<Rightarrow> real) \<Rightarrow> bool" where
  "spectral n V d M = (length d = n \<and> orthonormal n V \<and> (\<forall>i<n. \<forall>j<n. M i j = (\<Sum>l<n. V i l * d ! l * V j l)))"

fun mpow :: "nat \<Rightarrow> (nat \<Rightarrow> nat \<Rightarrow> real) \<Rightarrow> nat \<Rightarrow> nat \<Rightarrow> nat \<Rightarrow> real" where
  "mpow n M 0 = (\<lambda>i j. if i = j then 1 else 0)"
| "mpow n M (Suc k) = (\<lambda>i j. \<Sum>m<n. mpow n M k i m * M m j)"

definition kronF :: "nat \<Rightarrow> (nat \<Rightarrow> nat \<Rightarrow> real) \<Rightarrow> (nat \<Rightarrow> nat \<Rightarrow> real) \<Rightarrow> nat \<Rightarrow> nat \<Rightarrow> real" where
  "kronF b M N r c = M (r div b) (c div b) * N (r mod b) (c mod b)"

definition kron_vec :: "real list \<Rightarrow> real list \<Rightarrow> real list" where
  "kron_vec d e = concat (map (\<lambda>x. map (\<lambda>y. x * y) e) d)"

fun fin_of :: "tfloat \<Rightarrow> real" where
  "fin_of NaN = 0"
| "fin_of (Fin x) = x"

text \<open>A 2 x 2 grid: diagonal kernel matrices \<open>Ks\<close>, a Gaussian likelihood with one
  precision per grid point, \<open>log_like(y, f) = - w/2 * (y - f)^2\<close>, with its gradient
  \<open>w * (y - f)\<close> and its Hessian \<open>- w\<close>, observations \<open>y = 0\<close>, \<^verbatim>\<open>mu = 0\<close>,
  \<^verbatim>\<open>k_diag = [1, 1, 1, 1]\<close> and a mask or none. \<open>grid_solver_init Ks W msk\<close> is the engine as
  \<^verbatim>\<open>__init__\<close> builds it; \<open>grid_solver Ks W msk\<close> is the engine after \<open>run\<close>, where the
  Newton steps have stored \<^verbatim>\<open>self.W\<close> = \<open>W\<close>, \<^verbatim>\<open>self.b\<close> and \<^verbatim>\<open>self.z\<close>.\<close>

definition D12 :: "tfloat tensor2" where
  "D12 = Tensor2 2 2 [Fin 1, Fin 0, Fin 0, Fin 2]"

definition D13 :: "tfloat tensor2" where
  "D13 = Tensor2 2 2 [Fin 1, Fin 0, Fin 0, Fin 3]"

definition weighted_log_like :: "tfloat vec \<Rightarrow> tfloat vec \<Rightarrow> tfloat vec \<Rightarrow> tfloat vec" where
  "weighted_log_like w y f = map (\<lambda>(w, y, f). - (w * ((y - f) * (y - f)))) (zip w (zip y f))"

definition grid_solver_init :: "tfloat tensor2 list \<Rightarrow> tfloat vec \<Rightarrow> bool list option \<Rightarrow> solver" where
  "grid_solver_init Ks W msk =
     solver_init (tf_zeros 4) Ks (weighted_log_like (map (\<lambda>w. Fin (1 / 2) * w) W))
       (\<lambda>y f. map (\<lambda>(w, y, f). w * (y - f)) (zip W (zip y f))) (\<lambda>y f. map uminus W)
       4 (tf_zeros 4) (Fin (1 / 2)) (Some [Fin 1, Fin 1, Fin 1, Fin 1]) msk"

definition grid_solver :: "tfloat tensor2 list \<Rightarrow> tfloat vec \<Rightarrow> bool list option \<Rightarrow> solver" where
  "grid_solver Ks W msk =
     (grid_solver_init Ks W msk)\<lparr>self_W := W, self_b := Some (tf_zeros 4), self_z := Some (tf_zeros 4)\<rparr>"

definition W0 :: "tfloat vec" where
  "W0 = [Fin 1, Fin 4, Fin 1, Fin 1]"

definition W1 :: "tfloat vec" where
  "W1 = [Fin 1, Fin 1, Fin 1, Fin 1]"

definition grid_mask :: "bool list" where
  "grid_mask = [False, True, False, False]"

text \<open>The dense Kronecker products \<open>kron_list [D12, D13]\<close> and \<open>kron_list [D13, D12]\<close>.\<close>

definition K1213 :: "tfloat tensor2" where
  "K1213 = Tensor2 4 4 [Fin 1, Fin 0, Fin 0, Fin 0,  Fin 0, Fin 3, Fin 0, Fin 0,
                        Fin 0, Fin 0, Fin 2, Fin 0,  Fin 0, Fin 0, Fin 0, Fin 6]"

definition K1312 :: "tfloat tensor2" where
  "K1312 = Tensor2 4 4 [Fin 1, Fin 0, Fin 0, Fin 0,  Fin 0, Fin 2, Fin 0, Fin 0,
                        Fin 0, Fin 0, Fin 3, Fin 0,  Fin 0, Fin 0, Fin 0, Fin 6]"

text \<open>A symmetric matrix that is not diagonal, with eigenvalues \<open>1\<close> and \<open>2\<close> and the
  eigenvectors \<open>(3/5, -4/5)\<close> and \<open>(4/5, 3/5)\<close>.\<close>

definition A_dense :: "tfloat tensor2" where
  "A_dense = Tensor2 2 2 [Fin (41 / 25), Fin (12 / 25), Fin (12 / 25), Fin (34 / 25)]"

text \<open>The fields of a grid engine that no Newton step changes.\<close>

definition grid_fields :: "tfloat tensor2 list \<Rightarrow> tfloat vec \<Rightarrow> bool list option \<Rightarrow> solver \<Rightarrow> bool" where
  "grid_fields Ks W msk s =
     (self_mask s = msk \<and> self_mu s = tf_zeros 4 \<and> self_y s = tf_zeros 4 \<and> self_alpha s = tf_zeros 4
      \<and> self_log_like s = weighted_log_like (map (\<lambda>w. Fin (1 / 2) * w) W)
      \<and> self_grad_func s = (\<lambda>y f. map (\<lambda>(w, y, f). w * (y - f)) (zip W (zip y f)))
      \<and> self_hess_func s = (\<lambda>y f. map uminus W)
      \<and> self_Ks s = Ks \<and> self_k_diag s = Some [Fin 1, Fin 1, Fin 1, Fin 1]
      \<and> self_precondition s = Some [Fin 1, Fin 1, Fin 1, Fin 1] \<and> self_tau s = Fin (1 / 2))"

section \<open>Properties of the conjugate gradient solver\<close>

lemma tf_broadcast_same:
  "length xs = length ys \<Longrightarrow> tf_broadcast g xs ys = Some (map2 g xs ys)"
  by (simp add: tf_broadcast_def)

lemma tf_multiply_self: "tf_multiply r r = Some (map2 (\<lambda>a b. a * b) r r)"
  by (simp add: tf_multiply_def tf_broadcast_def)

lemma tf_less_not_greater: "tf_less a c \<Longrightarrow> \<not> tf_greater a c"
  by (cases a; cases c) auto

lemma cg_loop_stop:
  "\<not> tf_greater (tf_reduce_sum (map2 (\<lambda>a b. a * b) r r)) (Fin (1 / 100000)) \<or> \<not> count < max_it
   \<Longrightarrow> cg_loop cg_prod (p, count, x, r, max_it) = Some (p, count, x, r, max_it)"
  by (subst cg_loop.simps) (auto simp: tf_multiply_self)

lemma cg_body_total:
  assumes cb: "\<forall>p. length p = n \<longrightarrow> (\<exists>q. cg_prod p = Some q \<and> length q = n)"
    and len: "length p = n" "length x = n" "length r = n"
  shows "\<exists>p' x' r'. cg_body cg_prod (p, count, x, r, max_it) = Some (p', count + 1, x', r', max_it)
           \<and> length p' = n \<and> length x' = n \<and> length r' = n"
proof -
  from cb len obtain Bp where Bp: "cg_prod p = Some Bp" "length Bp = n"
    by blast
  show ?thesis
    using len Bp
    by (simp add: tf_multiply_def tf_add_def tf_subtract_def tf_broadcast_same scalar_mul_def Let_def)
qed

lemma cg_loop_total:
  "\<forall>p. length p = n \<longrightarrow> (\<exists>q. cg_prod p = Some q \<and> length q = n) \<Longrightarrow>
         st = (p, count, x, r, max_it) \<Longrightarrow> length p = n \<Longrightarrow> length x = n \<Longrightarrow> length r = n \<Longrightarrow>
         \<exists>p' count' x' r'. cg_loop cg_prod st = Some (p', count', x', r', max_it)
            \<and> count \<le> count' \<and> count' \<le> max count max_it
            \<and> (count' < max_it \<longrightarrow> \<not> tf_greater (tf_reduce_sum (map2 (\<lambda>a b. a * b) r' r')) (Fin (1 / 100000)))
            \<and> length x' = n"
proof (induction cg_prod st arbitrary: p count x r rule: cg_loop.induct)
  case (1 cg_prod st p count x r)
  note cb = "1.prems"(1)
  note st = "1.prems"(2)
  note len = "1.prems"(3-5)
  show ?case
  proof (cases "tf_greater (tf_reduce_sum (map2 (\<lambda>a b. a * b) r r)) (Fin (1 / 100000)) \<and> count < max_it")
    case False
    then have "cg_loop cg_prod (p, count, x, r, max_it) = Some (p, count, x, r, max_it)"
      by (intro cg_loop_stop) auto
    with False len st show ?thesis by auto
  next
    case True
    then have conv: "cg_converged (p, count, x, r, max_it) = Some True"
      by (simp add: tf_multiply_self)
    from cg_body_total[OF cb len, of count max_it] obtain p' x' r' where
      body: "cg_body cg_prod (p, count, x, r, max_it) = Some (p', count + 1, x', r', max_it)"
      and len': "length p' = n" "length x' = n" "length r' = n"
      by blast
    from "1.IH"[OF conv[folded st] _ body[folded st] cb refl len']
    obtain p'' count'' x'' r'' where
      rec: "cg_loop cg_prod (p', count + 1, x', r', max_it) = Some (p'', count'', x'', r'', max_it)"
        "count + 1 \<le> count''" "count'' \<le> max (count + 1) max_it"
        "count'' < max_it \<longrightarrow> \<not> tf_greater (tf_reduce_sum (map2 (\<lambda>a b. a * b) r'' r'')) (Fin (1 / 100000))"
        "length x'' = n"
      by blast
    have "cg_loop cg_prod (p, count, x, r, max_it) = cg_loop cg_prod (p', count + 1, x', r', max_it)"
      by (subst cg_loop.simps) (simp only: conv body option.case bool.case)
    with rec True st show ?thesis by auto
  qed
qed

text \<open>
  Claim C7. If the initial residual \<open>r = b - cg_prod(x)\<close> already has a sum of squares below
  \<open>1e-5\<close>, the loop of \<open>cg\<close> runs no iteration (the final count is 0) and the solution
  estimate is the initial \<open>x\<close>; for the call with the default \<open>x\<close>, \<open>cg\<close> returns the zero
  vector it started from.
\<close>

theorem cg_early_exit:
  assumes "cg_prod x = Some Ax" and "tf_subtract b Ax = Some r"
    and "tf_less (tf_reduce_sum (map2 (\<lambda>a b. a * b) r r)) (Fin (1 / 100000))"
  shows "(\<forall>max_it. cg_from cg_prod b x max_it = Some (r, 0, x, r, max_it))
         \<and> (x = tf_zeros (length b) \<longrightarrow> (\<forall>max_it. cg cg_prod b max_it = Some x))"
  using assms
  by (auto simp: cg_from_def cg_def cg_loop_stop tf_less_not_greater)

theorem cg_early_exit_witness:
  "cg_from (\<lambda>p. Some p) [Fin (1 / 1000), Fin 0] [Fin 0, Fin 0] 4
     = Some ([Fin (1 / 1000), Fin 0], 0, [Fin 0, Fin 0], [Fin (1 / 1000), Fin 0], 4)
   \<and> cg (\<lambda>p. Some p) [Fin (1 / 1000), Fin 0] None = Some [Fin 0, Fin 0]"
proof -
  have a: "(\<lambda>p. Some p) [Fin 0, Fin 0] = Some [Fin 0, Fin 0]"
    by simp
  have b: "tf_subtract [Fin (1 / 1000), Fin 0] [Fin 0, Fin 0] = Some [Fin (1 / 1000), Fin 0]"
    by (simp add: tf_subtract_def tf_broadcast_def)
  have c: "tf_less (tf_reduce_sum (map2 (\<lambda>a b. a * b) [Fin (1 / 1000), Fin 0] [Fin (1 / 1000), Fin 0]))
             (Fin (1 / 100000))"
    by (simp add: tf_reduce_sum_def zero_tfloat_def)
  show ?thesis
    using a b c
      cg_early_exit [of Some "[Fin 0, Fin 0]" "[Fin 0, Fin 0]" "[Fin (1 / 1000), Fin 0]" "[Fin (1 / 1000), Fin 0]"]
    by (simp add: tf_zeros_def)
qed

text \<open>
  Claim C5. For a right-hand side \<open>b\<close> of dimension \<open>n\<close> and a callback that returns a vector
  of length \<open>n\<close> on every vector of length \<open>n\<close>, \<open>cg\<close> returns: its loop ends in a state
  whose iteration count is at most \<open>max_it\<close> (\<open>2n\<close> when no \<open>max_it\<close> is given), a count
  below \<open>max_it\<close> is reached only with a residual sum of squares that is not above \<open>1e-5\<close>,
  and the value returned is the \<open>x\<close> of that state, never an error.
\<close>

theorem cg_terminates:
  assumes cb: "\<forall>p. length p = length b \<longrightarrow> (\<exists>q. cg_prod p = Some q \<and> length q = length b)"
  shows "\<exists>p count x r.
           cg_from cg_prod b (tf_zeros (length b)) (cg_max_it b max_it) = Some (p, count, x, r, cg_max_it b max_it)
         \<and> cg cg_prod b max_it = Some x
         \<and> 0 \<le> count \<and> count \<le> max 0 (cg_max_it b max_it)
         \<and> (count < cg_max_it b max_it \<longrightarrow>
              \<not> tf_greater (tf_reduce_sum (map2 (\<lambda>a b. a * b) r r)) (Fin (1 / 100000)))
         \<and> cg_max_it b None = 2 * int (length b)
         \<and> length x = length b
         \<and> (\<forall>p' count' x' r' max_it'.
               tf_less (tf_reduce_sum (map2 (\<lambda>a b. a * b) r' r')) (Fin (1 / 100000)) \<longrightarrow>
               cg_loop cg_prod (p', count', x', r', max_it') = Some (p', count', x', r', max_it'))"
proof -
  have stop: "\<forall>p' count' x' r' max_it'.
               tf_less (tf_reduce_sum (map2 (\<lambda>a b. a * b) r' r')) (Fin (1 / 100000)) \<longrightarrow>
               cg_loop cg_prod (p', count', x', r', max_it') = Some (p', count', x', r', max_it')"
    by (simp add: cg_loop_stop tf_less_not_greater)
  have lz: "length (tf_zeros (length b)) = length b"
    by (simp add: tf_zeros_def)
  from cb lz obtain Ax where Ax: "cg_prod (tf_zeros (length b)) = Some Ax" "length Ax = length b"
    by blast
  then have r: "tf_subtract b Ax = Some (map2 (\<lambda>a b. a - b) b Ax)"
    by (simp add: tf_subtract_def tf_broadcast_same)
  have lr: "length (map2 (\<lambda>a b. a - b) b Ax) = length b"
    using Ax by simp
  from cg_loop_total[OF cb refl lr lz lr, of 0 "cg_max_it b max_it"]
  obtain p' count' x' r' where
    "cg_loop cg_prod (map2 (\<lambda>a b. a - b) b Ax, 0, tf_zeros (length b), map2 (\<lambda>a b. a - b) b Ax, cg_max_it b max_it)
       = Some (p', count', x', r', cg_max_it b max_it)"
    "0 \<le> count'" "count' \<le> max 0 (cg_max_it b max_it)"
    "count' < cg_max_it b max_it \<longrightarrow> \<not> tf_greater (tf_reduce_sum (map2 (\<lambda>a b. a * b) r' r')) (Fin (1 / 100000))"
    "length x' = length b"
    by blast
  then show ?thesis
    using Ax r stop by (auto simp: cg_from_def cg_def cg_max_it_def)
qed

theorem cg_terminates_witness:
  "\<exists>p count x r.
       cg_from (\<lambda>p. Some p) [Fin 3, Fin 4] (tf_zeros 2) 4 = Some (p, count, x, r, 4)
     \<and> cg (\<lambda>p. Some p) [Fin 3, Fin 4] None = Some x
     \<and> 0 \<le> count \<and> count \<le> 4 \<and> length x = 2"
proof -
  have h: "\<forall>p. length p = length [Fin 3, Fin 4] \<longrightarrow>
       (\<exists>q. (\<lambda>p. Some p) p = Some q \<and> length q = length [Fin 3, Fin 4])"
    by simp
  from cg_terminates [OF h, of None] obtain p count x r where
    "cg_from (\<lambda>p. Some p) [Fin 3, Fin 4] (tf_zeros 2) 4 = Some (p, count, x, r, 4)"
    "cg (\<lambda>p. Some p) [Fin 3, Fin 4] None = Some x"
    "0 \<le> count" "count \<le> 4" "length x = 2"
    by (auto simp: cg_max_it_def numeral_2_eq_2)
  then show ?thesis
    by blast
qed

section \<open>Properties of the line search\<close>

lemma search_step_frame: "search_step s st = Some (s', st') \<Longrightarrow> s' = s"
  by (cases st) (auto simp: Let_def split: bind_splits)

lemma line_loop_frame: "line_loop s st = Some (s', st') \<Longrightarrow> s' = s"
proof (induction s st rule: line_loop.induct)
  case (1 s st)
  show ?case
  proof (cases "converge_line st")
    case False
    with "1.prems" show ?thesis
      by (simp add: line_loop.simps)
  next
    case True
    with "1.prems" obtain s1 st1 where
      a: "search_step s st = Some (s1, st1)" and b: "line_loop s1 st1 = Some (s', st')"
      by (auto simp: line_loop.simps[of s st] split: option.splits)
    from "1.IH"[OF True a refl b] search_step_frame[OF a] show ?thesis
      by simp
  qed
qed

lemma line_search_frame_aux:
  "line_search s delta_alpha obj_prev max_it = Some (s', step_size) \<Longrightarrow> s' = s"
  by (auto simp: line_search_def Let_def split: bind_splits dest: line_loop_frame)

lemma ex_obj1: "search_obj example_solver [Fin 1, Fin 1] (Fin 2) = Some (Fin 6)"
  by code_simp

lemma ex_obj2: "search_obj example_solver [Fin 1, Fin 1] (Fin 1) = Some (Fin 1)"
  by code_simp

lemma ex_tau: "self_tau example_solver = Fin (1 / 2)"
  by (simp add: example_solver_def)

lemma ex_loop:
  "line_loop example_solver (Fin 5, Fin float_info_max, Fin 5, [Fin 1, Fin 1], Fin 2, 20, 1, Fin 0)
     = Some (example_solver, (Fin 5, Fin 1, Fin 1, [Fin 1, Fin 1], Fin (1 / 2), 20, 3, Fin 1))"
  by (simp add: line_loop.simps ex_obj1 ex_obj2 ex_tau float_info_max_def)

lemma ex_search: "line_search example_solver [Fin 1, Fin 1] (Fin 5) 20 = Some (example_solver, Fin 1)"
  by (simp add: line_search_def ex_loop)


lemma tf_greater_trans: "tf_greater a b \<Longrightarrow> tf_greater b c \<Longrightarrow> tf_greater a c"
  by (cases a; cases b; cases c) auto

lemma step_size_at_Suc: "step_size_at tau (Suc k) = tau * step_size_at tau k"
  by (simp add: step_size_at_def)

lemma search_step_inv:
  assumes inv: "ls_inv s psi st" and stp: "search_step s st = Some (s', st')"
  shows "ls_inv s psi st' \<and> fst (snd (snd (snd st'))) = fst (snd (snd (snd st)))"
proof -
  obtain obj_prev obj_search min_obj delta_alpha step_size max_it t opt_step
    where st: "st = (obj_prev, obj_search, min_obj, delta_alpha, step_size, max_it, t, opt_step)"
    by (cases st) auto
  from stp st obtain obj where obj: "search_obj s delta_alpha step_size = Some obj"
    and st': "st' = (obj_prev, obj, (if tf_greater min_obj obj then obj else min_obj), delta_alpha,
                     self_tau s * step_size, max_it, t + 1,
                     (if tf_greater min_obj obj then step_size else opt_step))"
    by (auto simp: Let_def split: bind_splits)
  from inv st have t: "1 \<le> t" and ss: "step_size = step_size_at (self_tau s) (nat (t - 1))"
    by (auto simp: ls_inv_def)
  have n: "nat (t + 1 - 1) = Suc (nat (t - 1))" and n2: "nat t = Suc (nat (t - 1))"
    using t by simp_all
  have ss': "self_tau s * step_size = step_size_at (self_tau s) (nat (t + 1 - 1))"
    unfolding n by (simp add: step_size_at_Suc ss)
  show ?thesis
  proof (cases "tf_greater min_obj obj")
    case True
    from inv st have "min_obj = psi \<or> tf_greater psi min_obj"
      by (auto simp: ls_inv_def)
    with True have "tf_greater psi obj"
      by (auto intro: tf_greater_trans)
    with obj ss have "\<exists>k<Suc (nat (t - 1)). step_size = step_size_at (self_tau s) k \<and>
        search_obj s delta_alpha step_size = Some obj \<and> tf_greater psi obj"
      by blast
    with True t ss' show ?thesis
      unfolding st st' ls_inv_def by (simp add: n2)
  next
    case False
    from inv st consider
      (none) "opt_step = Fin 0" "min_obj = psi"
        "\<forall>k<nat (t - 1). \<not> ls_improves s delta_alpha psi (step_size_at (self_tau s) k)"
      | (some) k where "k < nat (t - 1)" "opt_step = step_size_at (self_tau s) k"
        "search_obj s delta_alpha opt_step = Some min_obj" "tf_greater psi min_obj"
      by (auto simp: ls_inv_def)
    then show ?thesis
    proof cases
      case none
      from False none(2) obj ss
      have "\<not> ls_improves s delta_alpha psi (step_size_at (self_tau s) (nat (t - 1)))"
        by (auto simp: ls_improves_def)
      with none(3) have "\<forall>k<Suc (nat (t - 1)). \<not> ls_improves s delta_alpha psi (step_size_at (self_tau s) k)"
        by (auto simp: less_Suc_eq)
      with False none t ss' show ?thesis
        unfolding st st' ls_inv_def by (simp add: n2)
    next
      case some
      then have "\<exists>k<Suc (nat (t - 1)). opt_step = step_size_at (self_tau s) k \<and>
          search_obj s delta_alpha opt_step = Some min_obj \<and> tf_greater psi min_obj"
        using less_SucI by blast
      with False t ss' show ?thesis
        unfolding st st' ls_inv_def by (simp add: n2)
    qed
  qed
qed

lemma line_loop_inv:
  "ls_inv s psi st \<Longrightarrow> line_loop s st = Some (s', st') \<Longrightarrow>
     ls_inv s psi st' \<and> fst (snd (snd (snd st'))) = fst (snd (snd (snd st)))"
proof (induction s st rule: line_loop.induct)
  case (1 s st)
  show ?case
  proof (cases "converge_line st")
    case False
    with "1.prems" show ?thesis
      by (simp add: line_loop.simps)
  next
    case True
    with "1.prems" obtain s1 st1 where
      a: "search_step s st = Some (s1, st1)" and b: "line_loop s1 st1 = Some (s', st')"
      by (auto simp: line_loop.simps[of s st] split: option.splits)
    have s1: "s1 = s"
      using a by (rule search_step_frame)
    from search_step_inv[OF "1.prems"(1) a]
    have i1: "ls_inv s psi st1" and d1: "fst (snd (snd (snd st1))) = fst (snd (snd (snd st)))"
      by auto
    from "1.IH"[OF True a refl i1[folded s1] b] s1 d1 show ?thesis
      by simp
  qed
qed

text \<open>
  Claim C9. \<open>line_search\<close> returns a step size and leaves the engine as it was: every
  field of the engine after the call, \<open>self_alpha\<close> included, is the field before it.
\<close>

theorem line_search_frame:
  assumes "line_search s delta_alpha obj_prev max_it = Some (s', step_size)"
  shows "s' = s"
  using assms
  by (auto simp: line_search_def Let_def split: bind_splits dest: line_loop_frame)

theorem line_search_frame_witness:
  "line_search example_solver [Fin 1, Fin 1] (Fin 5) 20 = Some (example_solver, Fin 1)"
proof -
  from ex_search obtain s' where
    s': "line_search example_solver [Fin 1, Fin 1] (Fin 5) 20 = Some (s', Fin 1)"
    by blast
  from line_search_frame [OF s'] s' show ?thesis
    by simp
qed

text \<open>
  What the loop of the line search guarantees. When it ends after \<open>t - 1\<close> backtracking
  steps, the step size returned is either one of the candidates tried, and then the
  candidate objective that \<open>search_step\<close> computed for it is strictly below \<open>psi\<close>; or it
  is \<open>0.0\<close>, and then no candidate tried had a candidate objective strictly below \<open>psi\<close>.
  The candidate objective is \<open>search_obj\<close>; it is the objective of the Newton step only
  when \<open>search_f\<close> and \<open>step_f\<close> agree.
\<close>

lemma line_search_candidate_bound:
  assumes "line_loop s (psi, Fin float_info_max, psi, delta_alpha, Fin 2, max_it, 1, Fin 0)
             = Some (s', (obj_prev, obj_search, min_obj, delta_alpha', step_size, max_it', t, opt_step))"
  shows "line_search s delta_alpha psi max_it = Some (s', opt_step)
         \<and> ((\<exists>k<nat (t - 1). opt_step = step_size_at (self_tau s) k \<and>
                (\<exists>obj. search_obj s delta_alpha opt_step = Some obj \<and> tf_greater psi obj))
            \<or> (opt_step = Fin 0 \<and>
                (\<forall>k<nat (t - 1). \<forall>obj. search_obj s delta_alpha (step_size_at (self_tau s) k) = Some obj
                     \<longrightarrow> \<not> tf_greater psi obj)))"
proof -
  have "ls_inv s psi (psi, Fin float_info_max, psi, delta_alpha, Fin 2, max_it, 1, Fin 0)"
    by (simp add: ls_inv_def step_size_at_def)
  from line_loop_inv[OF this assms]
  have "ls_inv s psi (obj_prev, obj_search, min_obj, delta_alpha', step_size, max_it', t, opt_step)"
    and "delta_alpha' = delta_alpha"
    by auto
  then show ?thesis
    using assms by (auto simp: line_search_def ls_inv_def ls_improves_def)
qed

lemma line_search_candidate_bound_example:
  "line_search example_solver [Fin 1, Fin 1] (Fin 5) 20 = Some (example_solver, Fin 1)
   \<and> search_obj example_solver [Fin 1, Fin 1] (Fin 1) = Some (Fin 1) \<and> tf_greater (Fin 5) (Fin 1)"
  using line_search_candidate_bound [OF ex_loop] ex_obj2
  by simp

lemma search_step_t_suc:
  "search_step s st = Some (s', st') \<Longrightarrow>
     fst (snd (snd (snd (snd (snd (snd st')))))) = fst (snd (snd (snd (snd (snd (snd st)))))) + 1"
  by (cases st) (auto simp: Let_def split: bind_splits)

lemma line_loop_t_mono:
  "line_loop s st = Some (s', st') \<Longrightarrow>
     fst (snd (snd (snd (snd (snd (snd st)))))) \<le> fst (snd (snd (snd (snd (snd (snd st'))))))"
proof (induction s st rule: line_loop.induct)
  case (1 s st)
  show ?case
  proof (cases "converge_line st")
    case False
    with "1.prems" show ?thesis
      by (simp add: line_loop.simps)
  next
    case True
    with "1.prems" obtain s1 st1 where
      a: "search_step s st = Some (s1, st1)" and b: "line_loop s1 st1 = Some (s', st')"
      by (auto simp: line_loop.simps[of s st] split: option.splits)
    from "1.IH"[OF True a refl b] search_step_t_suc[OF a] show ?thesis
      by simp
  qed
qed

text \<open>
  Claim C3, as the code has it. The loop of the line search stops at a state, without
  another backtracking step, exactly when \<open>t\<close> has reached \<open>max_it\<close> or
  \<open>(obj_prev - obj_search) < step_size * t\<close> does not hold; while \<open>t < max_it\<close> and
  \<open>(obj_prev - obj_search) < step_size * t\<close> it performs another step.
\<close>

theorem line_loop_stops_iff:
  "line_loop s (obj_prev, obj_search, min_obj, delta_alpha, step_size, max_it, t, opt_step)
     = Some (s, (obj_prev, obj_search, min_obj, delta_alpha, step_size, max_it, t, opt_step))
   \<longleftrightarrow> (max_it \<le> t \<or> \<not> tf_less (obj_prev - obj_search) (step_size * Fin (of_int t)))"
proof (cases "converge_line (obj_prev, obj_search, min_obj, delta_alpha, step_size, max_it, t, opt_step)")
  case False
  then show ?thesis
    by (auto simp: line_loop.simps)
next
  case True
  have "line_loop s (obj_prev, obj_search, min_obj, delta_alpha, step_size, max_it, t, opt_step)
     \<noteq> Some (s, (obj_prev, obj_search, min_obj, delta_alpha, step_size, max_it, t, opt_step))"
  proof
    assume e: "line_loop s (obj_prev, obj_search, min_obj, delta_alpha, step_size, max_it, t, opt_step)
      = Some (s, (obj_prev, obj_search, min_obj, delta_alpha, step_size, max_it, t, opt_step))"
    with True obtain s1 st1 where
      a: "search_step s (obj_prev, obj_search, min_obj, delta_alpha, step_size, max_it, t, opt_step) = Some (s1, st1)"
      and b: "line_loop s1 st1 = Some (s, (obj_prev, obj_search, min_obj, delta_alpha, step_size, max_it, t, opt_step))"
      by (auto simp: line_loop.simps[of s "(obj_prev, obj_search, min_obj, delta_alpha, step_size, max_it, t, opt_step)"]
          split: option.splits)
    from search_step_t_suc[OF a] line_loop_t_mono[OF b] show False
      by simp
  qed
  with True show ?thesis
    by auto
qed

theorem line_loop_stops_iff_witness:
  "line_loop example_solver (Fin 5, Fin 1, Fin 1, [Fin 1, Fin 1], Fin (1 / 2), 20, 3, Fin 1)
     = Some (example_solver, (Fin 5, Fin 1, Fin 1, [Fin 1, Fin 1], Fin (1 / 2), 20, 3, Fin 1))"
  using line_loop_stops_iff [of example_solver "Fin 5" "Fin 1" "Fin 1" "[Fin 1, Fin 1]" "Fin (1 / 2)" 20 3 "Fin 1"]
  by simp

text \<open>
  Claim C3 as stated fails: in the first state of a line search with \<open>obj_prev = 5\<close> the
  test \<open>(obj_prev - obj_search) < step_size * t\<close> holds, and the loop does not stop there but
  runs two backtracking steps.
\<close>

theorem line_search_termination_counterexample:
  "tf_less (Fin 5 - Fin float_info_max) (Fin 2 * Fin (of_int 1))
   \<and> line_loop example_solver (Fin 5, Fin float_info_max, Fin 5, [Fin 1, Fin 1], Fin 2, 20, 1, Fin 0)
       = Some (example_solver, (Fin 5, Fin 1, Fin 1, [Fin 1, Fin 1], Fin (1 / 2), 20, 3, Fin 1))"
  using ex_loop by (simp add: float_info_max_def)

section \<open>Properties of the Newton step\<close>




lemma kd_init: "example_solver_k_diag = solver_init [Fin 0, Fin 0] [Tensor2 2 2 [Fin 1, Fin 0, Fin 0, Fin 1]]
   example_log_like (\<lambda>y f. map2 (\<lambda>a b. Fin 2 * (a - b)) y f) (\<lambda>y f. map (\<lambda>a. Fin (- 2)) f) 2 [Fin 1, Fin 1]
   (Fin (1 / 2)) (Some [Fin 1, Fin 1]) None"
  by (simp add: example_solver_k_diag_def example_solver_def solver_init_def tf_zeros_def numeral_2_eq_2)

lemma example_solver_init:
  "example_solver = solver_init [Fin 0, Fin 0] [Tensor2 2 2 [Fin 1, Fin 0, Fin 0, Fin 1]]
     example_log_like (\<lambda>y f. map2 (\<lambda>a b. Fin 2 * (a - b)) y f) (\<lambda>y f. map (\<lambda>a. Fin (- 2)) f) 2 [Fin 1, Fin 1]
     (Fin (1 / 2)) None None"
  by (simp add: example_solver_def solver_init_def tf_zeros_def numeral_2_eq_2)

text \<open>After its loop \<open>run\<close> stores \<open>kron_mvp(Ks, alpha) + mu\<close> in \<^verbatim>\<open>self.f\<close>, without the
  diagonal correction, and it raises when the engine has no \<^verbatim>\<open>k_diag\<close>.\<close>

lemma run_f:
  assumes "run s max_it = Some (s', out)"
  shows "\<exists>ka. kron_mvp (self_Ks s') (self_alpha s') = Some ka \<and> tf_add ka (self_mu s') = Some (self_f s')"
  using assms by (auto simp: run_def Let_def split: bind_splits prod.splits)

lemma newton_loop_k_diag:
  "newton_loop s st = Some (s', st') \<Longrightarrow> self_k_diag s' = self_k_diag s"
proof (induction s st rule: newton_loop.induct)
  case (1 s st)
  show ?case
  proof (cases "conv st")
    case False
    with "1.prems" show ?thesis
      by (simp add: newton_loop.simps)
  next
    case True
    with "1.prems" obtain s1 st1 where
      a: "step s st = Some (s1, st1)" and b: "newton_loop s1 st1 = Some (s', st')"
      by (auto simp: newton_loop.simps[of s st] split: option.splits)
    obtain max_it it prev delta where st: "st = (max_it, it, prev, delta)"
      by (cases st) auto
    have "self_k_diag s1 = self_k_diag s"
      using a unfolding st
      by (auto simp: Let_def step_update_def split: bind_splits prod.splits dest!: line_search_frame_aux)
    with "1.IH"[OF True a refl b] show ?thesis
      by simp
  qed
qed

lemma run_without_k_diag:
  assumes "self_k_diag s = None"
  shows "run s max_it = None"
proof (cases "newton_loop s (max_it, 0, Fin float_info_max, Fin float_info_max)")
  case None
  then show ?thesis
    by (simp add: run_def)
next
  case (Some r)
  obtain s' out where r: "r = (s', out)"
    by (cases r) auto
  from Some r assms have "self_k_diag s' = None"
    using newton_loop_k_diag by metis
  with Some r show ?thesis
    by (simp add: run_def Let_def split: bind_splits)
qed

text \<open>
  Claim C4 fails on the code. With \<^verbatim>\<open>k_diag\<close> present and no mask, the candidate function
  values of \<open>search_step\<close> for \<open>alpha_search = [2, 2]\<close> are \<open>kron_mvp(Ks, alpha_search) + mu\<close>
  without the diagonal correction, while \<open>step\<close> on the same \<open>alpha\<close> adds it.
\<close>

theorem search_f_without_k_diag:
  "search_f example_solver_k_diag [Fin 2, Fin 2] = Some [Fin 2, Fin 2]
   \<and> step_f (example_solver_k_diag\<lparr>self_alpha := [Fin 2, Fin 2]\<rparr>) = Some [Fin 4, Fin 4]"
  by code_simp

section \<open>Properties of the Kronecker matrix-vector product\<close>

lemma concat_singletons: "concat (map (\<lambda>j. [g j]) xs) = map g xs"
  by (induction xs) simp_all

lemma tf_transpose_column:
  assumes "dim1 T = 1" and "length (buf T) = dim0 T"
  shows "tf_transpose T = Tensor2 1 (dim0 T) (buf T)"
proof -
  have "concat (map (\<lambda>j. map (\<lambda>i. at2 T i j) [0..<dim0 T]) [0..<dim1 T]) = map (\<lambda>i. buf T ! i) [0..<dim0 T]"
    using assms by (simp add: at2_def)
  also have "\<dots> = buf T"
    using assms(2) by (metis map_nth)
  finally show ?thesis
    using assms by (simp add: tf_transpose_def)
qed

lemma tf_transpose_row:
  assumes "dim0 T = 1" and "length (buf T) = dim1 T"
  shows "tf_transpose T = Tensor2 (dim1 T) 1 (buf T)"
proof -
  have "concat (map (\<lambda>j. map (\<lambda>i. at2 T i j) [0..<dim0 T]) [0..<dim1 T]) = map (\<lambda>j. buf T ! j) [0..<dim1 T]"
    using assms by (simp add: at2_def concat_singletons)
  also have "\<dots> = buf T"
    using assms(2) by (metis map_nth)
  finally show ?thesis
    using assms by (simp add: tf_transpose_def)
qed

lemma kron_mvp_single:
  assumes "dim0 K = m" and "dim1 K = m" and "0 < m" and "length v = m"
  shows "kron_mvp [K] v = dense_mvp K v"
proof -
  let ?c = "Tensor2 m (Suc 0) v"
  have r: "tf_reshape_cols (tf_expand_dims1 v) (dim0 K) = Some (Tensor2 (Suc 0) m v)"
    using assms by (simp add: tf_reshape_cols_def tf_expand_dims1_def)
  have t0: "tf_transpose (Tensor2 (Suc 0) m v) = ?c"
    using assms tf_transpose_row[of "Tensor2 (Suc 0) m v"] by simp
  obtain P where P: "tf_matmul K ?c = Some P" and dP: "dim0 P = m" "dim1 P = Suc 0" "length (buf P) = m"
    using assms by (simp add: tf_matmul_def concat_singletons)
  have t1: "tf_transpose P = Tensor2 (Suc 0) m (buf P)"
    using dP tf_transpose_column[of P] by simp
  have t2: "tf_transpose (Tensor2 (Suc 0) m (buf P)) = Tensor2 m (Suc 0) (buf P)"
    using dP tf_transpose_row[of "Tensor2 (Suc 0) m (buf P)"] by simp
  have "kron_mvp [K] v = Some (buf P)"
    by (simp add: kron_mvp_def r t0 P t1 t2 tf_flatten_def)
  moreover have "dense_mvp K v = Some (buf P)"
    using assms P by (simp add: dense_mvp_def tf_expand_dims1_def tf_flatten_def)
  ultimately show ?thesis
    by simp
qed

text \<open>
  Claim C10. For a single square matrix \<open>K\<close> of size \<open>m > 0\<close> and a vector \<open>v\<close> of length
  \<open>m\<close>, \<open>kron_mvp([K], v)\<close> is the ordinary matrix-vector product \<open>K \<cdot> v\<close>, whose \<open>i\<close>-th entry
  is the sum of \<open>K[i, l] * v[l]\<close>; \<open>kron_list\<close> raises on the one-element list.
\<close>

theorem kron_mvp_one_matrix:
  assumes "dim0 K = m" and "dim1 K = m" and "0 < m" and "length v = m"
  shows "kron_mvp [K] v = dense_mvp K v
         \<and> dense_mvp K v = Some (map (\<lambda>i. sum_list (map (\<lambda>l. at2 K i l * v ! l) [0..<m])) [0..<m])
         \<and> kron_list [K] = None"
  using assms kron_mvp_single[OF assms]
  by (simp add: dense_mvp_def tf_matmul_def tf_expand_dims1_def tf_flatten_def concat_singletons at2_def)

theorem kron_mvp_one_matrix_witness:
  "kron_mvp [Tensor2 2 2 [Fin 1, Fin 2, Fin 3, Fin 4]] [Fin 5, Fin 6] = Some [Fin 17, Fin 39]"
proof -
  have "kron_mvp [Tensor2 2 2 [Fin 1, Fin 2, Fin 3, Fin 4]] [Fin 5, Fin 6]
        = Some (map (\<lambda>i. sum_list (map (\<lambda>l. at2 (Tensor2 2 2 [Fin 1, Fin 2, Fin 3, Fin 4]) i l * [Fin 5, Fin 6] ! l) [0..<2])) [0..<2])"
    using kron_mvp_one_matrix [of "Tensor2 2 2 [Fin 1, Fin 2, Fin 3, Fin 4]" 2 "[Fin 5, Fin 6]"]
    by simp
  also have "\<dots> = Some [Fin 17, Fin 39]"
    by code_simp
  finally show ?thesis .
qed

text \<open>\<open>kron_mvp\<close> has no length check of its own: with a 2 x 2 and a 3 x 3 matrix it accepts
  a vector of length 12, and it raises on a vector of length 3 only because a reshape does
  not divide evenly.\<close>

lemma kron_mvp_wrong_length:
  "kron_mvp [Tensor2 2 2 [Fin 1, Fin 2, Fin 3, Fin 4], Tensor2 3 3 [Fin 1, Fin 0, Fin 2, Fin 0, Fin 1, Fin 0, Fin 5, Fin 0, Fin 1]]
     [Fin 1, Fin 2, Fin 3, Fin 4, Fin 5, Fin 6, Fin 7, Fin 8, Fin 9, Fin 10, Fin 11, Fin 12]
   = Some [Fin 57, Fin 18, Fin 96, Fin 84, Fin 27, Fin 150, Fin 121, Fin 38, Fin 200, Fin 184, Fin 59, Fin 326]"
  "kron_mvp [Tensor2 2 2 [Fin 1, Fin 2, Fin 3, Fin 4], Tensor2 3 3 [Fin 1, Fin 0, Fin 2, Fin 0, Fin 1, Fin 0, Fin 5, Fin 0, Fin 1]]
     [Fin 1, Fin 2, Fin 3] = None"
  by code_simp+

text \<open>With exactly two square matrices \<open>kron_mvp\<close> is the product with the dense Kronecker
  matrix: the closed forms of both sides, entry by entry.\<close>

lemma length_tab [simp]: "length (tab m n g) = m * n"
  by (induction m) (simp_all add: tab_def)

lemma tab_Suc: "tab (Suc m) n g = tab m n g @ map (g m) [0..<n]"
  by (simp add: tab_def)

lemma nth_tab: "i < m \<Longrightarrow> j < n \<Longrightarrow> tab m n g ! (i * n + j) = g i j"
proof (induction m)
  case 0
  then show ?case by simp
next
  case (Suc m)
  show ?case
  proof (cases "i < m")
    case True
    then have "i * n + j < m * n"
      using Suc.prems(2)
      by (metis add.commute mult.commute mult_Suc_right nat_add_left_cancel_less Suc_leI mult_le_mono1 less_le_trans add_less_cancel_left)
    with True Suc show ?thesis
      by (simp add: tab_Suc nth_append)
  next
    case False
    with Suc.prems have "i = m" by simp
    with Suc.prems show ?thesis
      by (simp add: tab_Suc nth_append)
  qed
qed

lemma tab_cong:
  assumes "\<And>i j. i < m \<Longrightarrow> j < n \<Longrightarrow> g i j = h i j"
  shows "tab m n g = tab m n h"
  using assms
proof (induction m)
  case 0
  then show ?case by (simp add: tab_def)
next
  case (Suc m)
  have "tab m n g = tab m n h"
    using Suc.prems by (intro Suc.IH) simp
  moreover have "map (g m) [0..<n] = map (h m) [0..<n]"
    using Suc.prems by simp
  ultimately show ?case
    by (simp add: tab_Suc)
qed

lemma tab_eq_map: "tab m n (\<lambda>i j. G (i * n + j)) = map G [0..<m * n]"
proof (rule nth_equalityI)
  show "length (tab m n (\<lambda>i j. G (i * n + j))) = length (map G [0..<m * n])"
    by simp
next
  fix r assume "r < length (tab m n (\<lambda>i j. G (i * n + j)))"
  then have r: "r < m * n" by simp
  then have n: "0 < n" by (cases n) auto
  have d: "r div n < m"
    using r by (simp add: less_mult_imp_div_less)
  have "tab m n (\<lambda>i j. G (i * n + j)) ! (r div n * n + r mod n) = G (r div n * n + r mod n)"
    using d n by (intro nth_tab) auto
  then show "tab m n (\<lambda>i j. G (i * n + j)) ! r = map G [0..<m * n] ! r"
    using r by simp
qed

lemma buf_as_tab: "length xs = m * n \<Longrightarrow> xs = tab m n (\<lambda>i j. xs ! (i * n + j))"
  by (simp add: tab_eq_map) (metis map_nth)


lemma tab_append: "tab m w g @ tab n w (\<lambda>j. g (m + j)) = tab (m + n) w g"
proof (induction n)
  case 0
  then show ?case by (simp add: tab_def)
next
  case (Suc n)
  have "tab m w g @ tab (Suc n) w (\<lambda>j. g (m + j)) = (tab m w g @ tab n w (\<lambda>j. g (m + j))) @ map (g (m + n)) [0..<w]"
    by (simp add: tab_Suc)
  also have "\<dots> = tab (Suc (m + n)) w g"
    by (simp add: Suc tab_Suc)
  finally show ?case by simp
qed

lemma take_drop_nth: "k + n \<le> length xs \<Longrightarrow> take n (drop k xs) = map (\<lambda>l. xs ! (k + l)) [0..<n]"
  by (rule nth_equalityI) auto

lemma row_of_tab: "j < m \<Longrightarrow> row_of (Tensor2 m w (tab m w g)) j = map (g j) [0..<w]"
proof -
  assume j: "j < m"
  then have "j * w + w \<le> m * w"
    by (metis Suc_leI mult_Suc mult_le_mono1 add.commute)
  then have "take w (drop (j * w) (tab m w g)) = map (\<lambda>l. tab m w g ! (j * w + l)) [0..<w]"
    by (simp add: take_drop_nth)
  also have "\<dots> = map (g j) [0..<w]"
    using j by (simp add: nth_tab)
  finally show ?thesis
    by (simp add: row_of_def)
qed

lemma tf_transpose_tab:
  "tf_transpose (Tensor2 m n (tab m n g)) = Tensor2 n m (tab n m (\<lambda>j i. g i j))"
proof -
  have "tab n m (\<lambda>j i. at2 (Tensor2 m n (tab m n g)) i j) = tab n m (\<lambda>j i. g i j)"
    by (rule tab_cong) (simp add: at2_def nth_tab)
  then show ?thesis
    by (simp add: tf_transpose_def tab_def)
qed

lemma tf_matmul_tab:
  "tf_matmul (Tensor2 m k A) (Tensor2 k n (tab k n g))
    = Some (Tensor2 m n (tab m n (\<lambda>i j. sum_list (map (\<lambda>l. A ! (i * k + l) * g l j) [0..<k]))))"
proof -
  have "tab m n (\<lambda>i j. sum_list (map (\<lambda>l. at2 (Tensor2 m k A) i l * at2 (Tensor2 k n (tab k n g)) l j) [0..<k]))
        = tab m n (\<lambda>i j. sum_list (map (\<lambda>l. A ! (i * k + l) * g l j) [0..<k]))"
  proof (rule tab_cong)
    fix i j assume "i < m" "j < n"
    then have "map (\<lambda>l. A ! (i * k + l) * tab k n g ! (l * n + j)) [0..<k]
             = map (\<lambda>l. A ! (i * k + l) * g l j) [0..<k]"
      by (simp add: nth_tab)
    then show "sum_list (map (\<lambda>l. at2 (Tensor2 m k A) i l * at2 (Tensor2 k n (tab k n g)) l j) [0..<k])
        = sum_list (map (\<lambda>l. A ! (i * k + l) * g l j) [0..<k])"
      by (simp only: at2_def tensor2.sel)
  qed
  then show ?thesis
    by (simp add: tf_matmul_def tab_def)
qed


lemma kron_mvp_two_closed:
  fixes A B v :: "tfloat list"
  assumes v: "length v = a * b" and a: "0 < a" and b: "0 < b"
  shows "kron_mvp [Tensor2 a a A, Tensor2 b b B] v
    = Some (tab a b (\<lambda>i j. sum_list (map (\<lambda>k. A ! (i * a + k) *
              sum_list (map (\<lambda>l. B ! (j * b + l) * v ! (k * b + l)) [0..<b])) [0..<a])))"
proof -
  let ?V = "\<lambda>k l. v ! (k * b + l)"
  have vt: "v = tab a b ?V"
    using v by (rule buf_as_tab)
  have r0: "tf_reshape_cols (tf_expand_dims1 v) b = Some (Tensor2 a b (tab a b ?V))"
    using v a b vt by (simp add: tf_reshape_cols_def tf_expand_dims1_def)
  have r1: "tf_reshape_rows (Tensor2 a b (tab a b g)) a = Some (Tensor2 a b (tab a b g))" for g :: "nat \<Rightarrow> nat \<Rightarrow> tfloat"
    using a b by (simp add: tf_reshape_rows_def)
  show ?thesis
    by (simp add: kron_mvp_def r0 r1 tf_transpose_tab tf_matmul_tab tf_flatten_def)
qed


lemma tab_zero_cols [simp]: "tab m 0 g = []"
  by (induction m) (simp_all add: tab_def)

lemma map_upt_add: "map f [0..<m + n] = map f [0..<m] @ map (\<lambda>l. f (m + l)) [0..<n]"
  by (rule nth_equalityI) (auto simp: nth_append)

lemma row_of_scale2:
  fixes B :: "tfloat list"
  assumes "length B = b * b" and "j < b"
  shows "row_of (scale2 x (Tensor2 b b B)) j = map (\<lambda>l. x * B ! (j * b + l)) [0..<b]"
proof -
  have "j * b + b \<le> b * b"
    using assms(2) by (metis Suc_leI mult_Suc mult_le_mono1 add.commute)
  then have "take b (drop (j * b) (map (\<lambda>y. x * y) B)) = map (\<lambda>l. map (\<lambda>y. x * y) B ! (j * b + l)) [0..<b]"
    using assms(1) by (simp add: take_drop_nth)
  also have "\<dots> = map (\<lambda>l. x * B ! (j * b + l)) [0..<b]"
    using assms \<open>j * b + b \<le> b * b\<close> by simp
  finally show ?thesis
    by (simp add: row_of_def scale2_def)
qed

lemma kron_row_prefix:
  fixes A B :: "tfloat list"
  assumes B: "length B = b * b" and b: "0 < b"
  shows "fold (\<lambda>j row. do { r \<leftarrow> row; tf_concat1 r (scale2 (at2 (Tensor2 a a A) i j) (Tensor2 b b B)) })
           [0..<n] (Some (tf_zeros2 b 0))
         = Some (Tensor2 b (n * b) (tab b (n * b) (\<lambda>j c. A ! (i * a + c div b) * B ! (j * b + c mod b))))"
proof (induction n)
  case 0
  then show ?case
    by (simp add: tf_zeros2_def)
next
  case (Suc n)
  let ?g = "\<lambda>j c. A ! (i * a + c div b) * B ! (j * b + c mod b)"
  have "concat (map (\<lambda>j. row_of (Tensor2 b (n * b) (tab b (n * b) ?g)) j
                       @ row_of (scale2 (A ! (i * a + n)) (Tensor2 b b B)) j) [0..<b])
        = concat (map (\<lambda>j. map (?g j) [0..<n * b + b]) [0..<b])"
  proof (rule arg_cong[of _ _ concat], rule map_cong[OF refl])
    fix j assume "j \<in> set [0..<b]"
    then have j: "j < b" by simp
    have "map (\<lambda>l. A ! (i * a + n) * B ! (j * b + l)) [0..<b] = map (\<lambda>l. ?g j (n * b + l)) [0..<b]"
      using b by simp
    then show "row_of (Tensor2 b (n * b) (tab b (n * b) ?g)) j
                 @ row_of (scale2 (A ! (i * a + n)) (Tensor2 b b B)) j = map (?g j) [0..<n * b + b]"
      using j by (simp only: row_of_tab row_of_scale2[OF B j] map_upt_add[of "?g j" "n * b" b])
  qed
  then have c: "tf_concat1 (Tensor2 b (n * b) (tab b (n * b) ?g)) (scale2 (A ! (i * a + n)) (Tensor2 b b B))
             = Some (Tensor2 b (Suc n * b) (tab b (Suc n * b) ?g))"
    by (simp add: tf_concat1_def scale2_def tab_def add.commute)
  have "fold (\<lambda>j row. do { r \<leftarrow> row; tf_concat1 r (scale2 (at2 (Tensor2 a a A) i j) (Tensor2 b b B)) })
           [0..<Suc n] (Some (tf_zeros2 b 0))
        = tf_concat1 (Tensor2 b (n * b) (tab b (n * b) ?g)) (scale2 (at2 (Tensor2 a a A) i n) (Tensor2 b b B))"
    by (simp only: upt_Suc_append[OF le0] fold_append o_apply fold.simps id_apply Suc bind.simps)
  also have "at2 (Tensor2 a a A) i n = A ! (i * a + n)"
    by (simp add: at2_def)
  finally show ?case
    by (simp only: c)
qed


lemma kron_row_closed:
  fixes A B :: "tfloat list"
  assumes B: "length B = b * b" and b: "0 < b"
  shows "kron_row (Tensor2 a a A) (Tensor2 b b B) i
         = Some (Tensor2 b (a * b) (tab b (a * b) (\<lambda>j c. A ! (i * a + c div b) * B ! (j * b + c mod b))))"
  using kron_row_prefix[OF B b, of a A i a] by (simp add: kron_row_def)

lemma kron_prefix:
  fixes A B :: "tfloat list"
  assumes B: "length B = b * b" and b: "0 < b"
  shows "fold (\<lambda>i out. do { out' \<leftarrow> out; row \<leftarrow> kron_row (Tensor2 a a A) (Tensor2 b b B) i; tf_concat0 out' row })
           [0..<m] (Some (tf_zeros2 0 (a * b)))
         = Some (Tensor2 (m * b) (a * b) (tab (m * b) (a * b) (kron_entry a b A B)))"
proof (induction m)
  case 0
  then show ?case
    by (simp add: tf_zeros2_def tab_def)
next
  case (Suc m)
  have "tab b (a * b) (\<lambda>j c. A ! (m * a + c div b) * B ! (j * b + c mod b))
        = tab b (a * b) (\<lambda>j. kron_entry a b A B (m * b + j))"
    using b by (intro tab_cong) (simp add: kron_entry_def)
  then have "tab (m * b) (a * b) (kron_entry a b A B)
               @ tab b (a * b) (\<lambda>j c. A ! (m * a + c div b) * B ! (j * b + c mod b))
             = tab (Suc m * b) (a * b) (kron_entry a b A B)"
    using tab_append[of "m * b" "a * b" "kron_entry a b A B" b] by (simp add: add.commute)
  then have c: "tf_concat0 (Tensor2 (m * b) (a * b) (tab (m * b) (a * b) (kron_entry a b A B)))
                  (Tensor2 b (a * b) (tab b (a * b) (\<lambda>j c. A ! (m * a + c div b) * B ! (j * b + c mod b))))
                = Some (Tensor2 (Suc m * b) (a * b) (tab (Suc m * b) (a * b) (kron_entry a b A B)))"
    by (simp add: tf_concat0_def add.commute)
  have "fold (\<lambda>i out. do { out' \<leftarrow> out; row \<leftarrow> kron_row (Tensor2 a a A) (Tensor2 b b B) i; tf_concat0 out' row })
           [0..<Suc m] (Some (tf_zeros2 0 (a * b)))
        = tf_concat0 (Tensor2 (m * b) (a * b) (tab (m * b) (a * b) (kron_entry a b A B)))
                  (Tensor2 b (a * b) (tab b (a * b) (\<lambda>j c. A ! (m * a + c div b) * B ! (j * b + c mod b))))"
    by (simp only: upt_Suc_append[OF le0] fold_append o_apply fold.simps id_apply Suc bind.simps)
       (simp only: kron_row_closed[OF B b] bind.simps)
  then show ?case
    by (simp only: c)
qed

lemma kron_closed:
  fixes A B :: "tfloat list"
  assumes B: "length B = b * b" and b: "0 < b"
  shows "kron (Tensor2 a a A) (Tensor2 b b B)
         = Some (Tensor2 (a * b) (a * b) (tab (a * b) (a * b) (kron_entry a b A B)))"
  using kron_prefix[OF B b, of a A a] by (simp add: kron_def)


lemma tab_column: "tab m (Suc 0) g = map (\<lambda>i. g i 0) [0..<m]"
  by (induction m) (simp_all add: tab_def)

lemma dense_mvp_tab:
  fixes v :: "tfloat list"
  assumes "length v = n"
  shows "dense_mvp (Tensor2 n n (tab n n g)) v
         = Some (map (\<lambda>r. sum_list (map (\<lambda>c. g r c * v ! c) [0..<n])) [0..<n])"
proof -
  have v: "v = tab n (Suc 0) (\<lambda>c j. v ! c)"
    using assms by (simp add: tab_column) (metis map_nth)
  have "tf_matmul (Tensor2 n n (tab n n g)) (Tensor2 n (Suc 0) (tab n (Suc 0) (\<lambda>c j. v ! c)))
        = Some (Tensor2 n (Suc 0) (tab n (Suc 0) (\<lambda>r j. sum_list (map (\<lambda>c. tab n n g ! (r * n + c) * v ! c) [0..<n]))))"
    by (rule tf_matmul_tab)
  also have "tab n (Suc 0) (\<lambda>r j. sum_list (map (\<lambda>c. tab n n g ! (r * n + c) * v ! c) [0..<n]))
             = tab n (Suc 0) (\<lambda>r j. sum_list (map (\<lambda>c. g r c * v ! c) [0..<n]))"
  proof (rule tab_cong)
    fix r j assume "r < n"
    then have "map (\<lambda>c. tab n n g ! (r * n + c) * v ! c) [0..<n] = map (\<lambda>c. g r c * v ! c) [0..<n]"
      by (simp add: nth_tab)
    then show "sum_list (map (\<lambda>c. tab n n g ! (r * n + c) * v ! c) [0..<n])
               = sum_list (map (\<lambda>c. g r c * v ! c) [0..<n])"
      by (simp only:)
  qed
  finally have "tf_matmul (Tensor2 n n (tab n n g)) (Tensor2 n (Suc 0) v)
        = Some (Tensor2 n (Suc 0) (map (\<lambda>r. sum_list (map (\<lambda>c. g r c * v ! c) [0..<n])) [0..<n]))"
    using v by (simp add: tab_column)
  then show ?thesis
    using assms by (simp add: dense_mvp_def tf_expand_dims1_def tf_flatten_def)
qed

lemma tfloat_mult_assoc: "(x * y) * z = x * (y * (z :: tfloat))"
  by (cases x; cases y; cases z) simp_all

lemma tfloat_distrib_left: "x * (y + z) = x * y + x * (z :: tfloat)"
  by (cases x; cases y; cases z) (simp_all add: distrib_left)

lemma tfloat_sum_distrib:
  fixes x :: tfloat
  shows "ls \<noteq> [] \<Longrightarrow> x * sum_list (map g ls) = sum_list (map (\<lambda>l. x * g l) ls)"
proof (induction ls rule: list_nonempty_induct)
  case (single l)
  then show ?case by simp
next
  case (cons l ls)
  then show ?case by (simp add: tfloat_distrib_left)
qed

lemma sum_list_blocks:
  fixes g :: "nat \<Rightarrow> 'a::comm_monoid_add"
  shows "sum_list (map g [0..<a * b]) = sum_list (map (\<lambda>k. sum_list (map (\<lambda>l. g (k * b + l)) [0..<b])) [0..<a])"
proof (induction a)
  case 0
  then show ?case by simp
next
  case (Suc a)
  have "map g [0..<Suc a * b] = map g [0..<a * b] @ map (\<lambda>l. g (a * b + l)) [0..<b]"
    using map_upt_add[of g "a * b" b] by (simp add: add.commute)
  then show ?case
    by (simp add: Suc)
qed

text \<open>For two well-formed square matrices of sizes \<open>a, b > 0\<close> and a vector of length
  \<open>a * b\<close>, \<open>kron_mvp\<close> equals \<open>kron_list(Ks) \<cdot> v\<close>.\<close>

lemma kron_mvp_two:
  fixes A B v :: "tfloat list"
  assumes A: "length A = a * a" and B: "length B = b * b" and v: "length v = a * b"
    and a: "0 < a" and b: "0 < b"
  shows "kron_mvp [Tensor2 a a A, Tensor2 b b B] v
         = kron_list [Tensor2 a a A, Tensor2 b b B] \<bind> (\<lambda>K. dense_mvp K v)"
proof -
  let ?G = "\<lambda>r. sum_list (map (\<lambda>c. kron_entry a b A B r c * v ! c) [0..<a * b])"
  let ?F = "\<lambda>i j. sum_list (map (\<lambda>k. A ! (i * a + k) *
              sum_list (map (\<lambda>l. B ! (j * b + l) * v ! (k * b + l)) [0..<b])) [0..<a])"
  have ne: "[0..<b] \<noteq> []"
    using b by simp
  have "tab a b ?F = tab a b (\<lambda>i j. ?G (i * b + j))"
  proof (rule tab_cong)
    fix i j assume i: "i < a" and j: "j < b"
    have "?G (i * b + j)
          = sum_list (map (\<lambda>k. sum_list (map (\<lambda>l. kron_entry a b A B (i * b + j) (k * b + l) * v ! (k * b + l)) [0..<b])) [0..<a])"
      by (rule sum_list_blocks)
    also have "\<dots> = sum_list (map (\<lambda>k. sum_list (map (\<lambda>l. A ! (i * a + k) * (B ! (j * b + l) * v ! (k * b + l))) [0..<b])) [0..<a])"
    proof -
      have "map (\<lambda>l. kron_entry a b A B (i * b + j) (k * b + l) * v ! (k * b + l)) [0..<b]
            = map (\<lambda>l. A ! (i * a + k) * (B ! (j * b + l) * v ! (k * b + l))) [0..<b]" for k
        using j by (simp add: kron_entry_def tfloat_mult_assoc)
      then show ?thesis
        by (simp only:)
    qed
    also have "\<dots> = ?F i j"
      by (simp only: tfloat_sum_distrib[OF ne])
    finally show "?F i j = ?G (i * b + j)"
      by simp
  qed
  also have "\<dots> = map ?G [0..<a * b]"
    by (rule tab_eq_map)
  finally have "tab a b ?F = map ?G [0..<a * b]" .
  then show ?thesis
    using kron_mvp_two_closed[OF v a b, of A B] kron_closed[OF B b, of a A] dense_mvp_tab[OF v, of "kron_entry a b A B"]
    by simp
qed

text \<open>
  Claim C1 fails on the code for three matrices: with three 2 x 2 identity matrices the dense
  Kronecker product is the 8 x 8 identity, so \<open>kron_list(Ks) \<cdot> v = v\<close>, and \<open>kron_mvp\<close> returns
  a permutation of \<open>v\<close>.
\<close>

theorem kron_mvp_three_identities:
  "kron_mvp [I2, I2, I2] [Fin 1, Fin 2, Fin 3, Fin 4, Fin 5, Fin 6, Fin 7, Fin 8]
     = Some [Fin 1, Fin 5, Fin 2, Fin 6, Fin 3, Fin 7, Fin 4, Fin 8]
   \<and> kron_list [I2, I2, I2] \<bind> (\<lambda>K. dense_mvp K [Fin 1, Fin 2, Fin 3, Fin 4, Fin 5, Fin 6, Fin 7, Fin 8])
     = Some [Fin 1, Fin 2, Fin 3, Fin 4, Fin 5, Fin 6, Fin 7, Fin 8]"
  by code_simp



section \<open>The line search within the Newton step\<close>














section \<open>Properties of the marginal likelihood\<close>

lemma zeros4: "tf_zeros 4 = [Fin 0, Fin 0, Fin 0, Fin 0]"
  by (simp add: tf_zeros_def numeral_eq_Suc)

lemma same_entries_count: "same_entries xs ys \<Longrightarrow> count_list xs x = count_list ys x"
  by (cases "x \<in> set (xs @ ys)") (auto simp: same_entries_def count_list_0_iff)

lemma count_list_sum_cong:
  fixes g :: "'a \<Rightarrow> 'b::comm_monoid_add"
  shows "(\<And>x. count_list xs x = count_list ys x) \<Longrightarrow> sum_list (map g xs) = sum_list (map g ys)"
proof (induction xs arbitrary: ys)
  case Nil
  then have "\<And>x. x \<notin> set ys"
    by (metis count_list.simps(1) count_list_0_iff)
  then have "ys = []"
    by (cases ys) auto
  then show ?case by simp
next
  case (Cons a xs)
  have "count_list ys a \<noteq> 0"
    using Cons.prems[of a] by simp
  then have "a \<in> set ys"
    by (simp add: count_list_0_iff)
  then obtain as bs where ys: "ys = as @ a # bs"
    by (auto dest: split_list)
  have "count_list xs x = count_list (as @ bs) x" for x
    using Cons.prems[of x] ys by (auto split: if_splits)
  from Cons.IH[OF this] have "sum_list (map g xs) = sum_list (map g (as @ bs))" .
  then show ?case
    by (simp add: ys add.left_commute)
qed

lemma sum_list_same_entries:
  fixes g :: "'a \<Rightarrow> 'b::comm_monoid_add"
  assumes "same_entries xs ys"
  shows "sum_list (map g xs) = sum_list (map g ys)"
  using assms by (intro count_list_sum_cong same_entries_count)

lemma same_entries_length:
  assumes "same_entries xs ys"
  shows "length xs = length ys"
  using sum_list_same_entries[OF assms, of "\<lambda>x. 1::nat"] by (simp add: sum_list_triv)

lemma tf_multiply_constant:
  "tf_multiply e (replicate (length e) w) = Some (map (\<lambda>x. x * w) e)"
proof -
  have "map2 (\<lambda>a b. a * b) e (replicate (length e) w) = map (\<lambda>x. x * w) e"
    by (induction e) simp_all
  then show ?thesis
    by (simp add: tf_multiply_def tf_broadcast_def)
qed

lemma marginal_value_constant_W:
  assumes "self_mask s = None" and "same_entries ev eb" and "self_W s = replicate (length ev) w"
  shows "marginal_value s eb = marginal_value s ev"
proof -
  have len: "length eb = length ev"
    using same_entries_length[OF assms(2)] by simp
  have "tf_reduce_sum (map (\<lambda>x. tf_log (Fin 1 + x)) (map (\<lambda>x. x * w) eb))
        = tf_reduce_sum (map (\<lambda>x. tf_log (Fin 1 + x)) (map (\<lambda>x. x * w) ev))"
    unfolding tf_reduce_sum_def map_map
    by (rule sum_list_same_entries[symmetric]) (rule assms(2))
  then show ?thesis
    using assms(1,3) tf_multiply_constant[of ev w] tf_multiply_constant[of eb w] len
    by (simp add: marginal_value_def)
qed

text \<open>A sum over the indices of a Kronecker product is a double sum.\<close>

lemma sum_div_mod:
  fixes F :: "nat \<Rightarrow> nat \<Rightarrow> 'a::comm_monoid_add"
  shows "(\<Sum>l<a * b. F (l div b) (l mod b)) = (\<Sum>k<a. \<Sum>m<b. F k m)"
proof -
  have "(\<Sum>l<a * b. F (l div b) (l mod b)) = (\<Sum>k<a. sum (\<lambda>l. F (l div b) (l mod b)) {k * b..<k * b + b})"
    by (rule sum.nat_group[symmetric])
  also have "\<dots> = (\<Sum>k<a. \<Sum>m<b. F k m)"
  proof (rule sum.cong[OF refl])
    fix k
    have "sum (\<lambda>l. F (l div b) (l mod b)) {k * b..<k * b + b} = sum (\<lambda>m. F ((m + k * b) div b) ((m + k * b) mod b)) {0..<b}"
      using sum.shift_bounds_nat_ivl[of "\<lambda>l. F (l div b) (l mod b)" 0 "k * b" b] by (simp add: add.commute)
    also have "\<dots> = sum (\<lambda>m. F k m) {0..<b}"
      by (rule sum.cong) auto
    finally show "sum (\<lambda>l. F (l div b) (l mod b)) {k * b..<k * b + b} = (\<Sum>m<b. F k m)"
      by (simp add: atLeast0LessThan)
  qed
  finally show ?thesis .
qed

text \<open>Two non-decreasing lists with the same entries are equal, and two lists of reals
  with the same power sums have the same entries.\<close>

lemma sorted_count_unique:
  fixes xs ys :: "real list"
  assumes "sorted xs" "sorted ys" "\<And>x. count_list xs x = count_list ys x"
  shows "xs = ys"
  using assms
proof (induction xs arbitrary: ys)
  case Nil
  have "count_list ys x = 0" for x using Nil(3)[of x] by simp
  then have "x \<notin> set ys" for x by (simp add: count_list_0_iff)
  then have "ys = []" by (cases ys) auto
  then show ?case by simp
next
  case (Cons a xs)
  have "count_list ys a \<noteq> 0" using Cons.prems(3)[of a] by simp
  then obtain b ys' where ys: "ys = b # ys'" by (cases ys) auto
  have "a \<in> set ys" using \<open>count_list ys a \<noteq> 0\<close> by (simp add: count_list_0_iff)
  then have ba: "b \<le> a" using Cons.prems(2) ys by auto
  have "count_list (a # xs) b \<noteq> 0" using Cons.prems(3)[of b] ys by simp
  then have "b \<in> set (a # xs)" by (simp only: count_list_0_iff not_not)
  then have ab: "a \<le> b" using Cons.prems(1) by auto
  from ab ba have e: "a = b" by simp
  have "count_list xs x = count_list ys' x" for x
    using Cons.prems(3)[of x] ys e by (simp split: if_splits)
  then have "xs = ys'"
    using Cons.prems(1,2) ys by (intro Cons.IH) auto
  then show ?case using ys e by simp
qed

lemma power_sums_count:
  fixes xs ys :: "real list"
  assumes ps: "\<And>k. sum_list (map (\<lambda>x. x ^ k) xs) = sum_list (map (\<lambda>x. x ^ k) ys)"
  shows "count_list xs m = count_list ys m"
proof -
  define S where "S = filter (\<lambda>s. s \<noteq> m) (xs @ ys)"
  define p where "p = (\<lambda>x. prod_list (map (\<lambda>s. x - s) S))"
  have Q: "sum_list (map (\<lambda>x. x ^ k * prod_list (map (\<lambda>s. x - s) T)) xs)
         = sum_list (map (\<lambda>x. x ^ k * prod_list (map (\<lambda>s. x - s) T)) ys)" for T k
  proof (induction T arbitrary: k)
    case Nil
    then show ?case using ps[of k] by simp
  next
    case (Cons s T)
    have "sum_list (map (\<lambda>x. x ^ k * prod_list (map (\<lambda>s. x - s) (s # T))) zs)
        = sum_list (map (\<lambda>x. x ^ Suc k * prod_list (map (\<lambda>s. x - s) T)) zs)
          - s * sum_list (map (\<lambda>x. x ^ k * prod_list (map (\<lambda>s. x - s) T)) zs)" for zs :: "real list"
      by (induction zs) (simp_all add: algebra_simps)
    then show ?case
      using Cons.IH[of k] Cons.IH[of "Suc k"] by simp
  qed
  have c: "sum_list (map p zs) = of_nat (count_list zs m) * p m" if "set zs \<subseteq> set (xs @ ys)" for zs
    using that
  proof (induction zs)
    case Nil
    then show ?case by simp
  next
    case (Cons z zs)
    have "p z = 0" if "z \<noteq> m"
    proof -
      have "z \<in> set S" using Cons.prems that by (auto simp: S_def)
      then have "(0::real) \<in> set (map (\<lambda>s. z - s) S)" by force
      then show ?thesis by (simp add: p_def prod_list_zero_iff)
    qed
    then show ?case
      using Cons by (auto simp: algebra_simps)
  qed
  have "p m \<noteq> 0"
    by (auto simp: p_def prod_list_zero_iff S_def)
  moreover have "sum_list (map p xs) = sum_list (map p ys)"
    using Q[of 0 S] by (simp add: p_def)
  ultimately show ?thesis
    using c[of xs] c[of ys] by simp
qed

text \<open>The eigenvalues of a matrix are determined by the matrix: for a decomposition
  \<open>M = V diag(d) V\<^sup>T\<close> with orthonormal \<open>V\<close> the trace of \<open>M\<^sup>k\<close> is the \<open>k\<close>-th power sum of
  \<open>d\<close>.\<close>

lemma sum_delta_left:
  fixes f :: "nat \<Rightarrow> real"
  assumes "i < n"
  shows "(\<Sum>m<n. (if i = m then 1 else 0) * f m) = f i"
proof -
  have "(\<Sum>m<n. (if i = m then 1 else 0) * f m) = (\<Sum>m<n. if i = m then f m else 0)"
    by (intro sum.cong refl) simp
  then show ?thesis
    using assms by (simp add: sum.delta')
qed

lemma sum_delta_right:
  fixes f :: "nat \<Rightarrow> real"
  assumes "i < n"
  shows "(\<Sum>m<n. f m * (if i = m then 1 else 0)) = f i"
proof -
  have "(\<Sum>m<n. f m * (if i = m then 1 else 0)) = (\<Sum>m<n. if i = m then f m else 0)"
    by (intro sum.cong refl) simp
  then show ?thesis
    using assms by (simp add: sum.delta')
qed

lemma orth_contract:
  assumes "orthonormal n V"
  shows "(\<Sum>m<n. (\<Sum>l<n. A l * V m l) * (\<Sum>l'<n. V m l' * B l')) = (\<Sum>l<n. A l * B l)"
proof -
  have "(\<Sum>m<n. (\<Sum>l<n. A l * V m l) * (\<Sum>l'<n. V m l' * B l'))
      = (\<Sum>m<n. \<Sum>l<n. \<Sum>l'<n. A l * B l' * (V m l * V m l'))"
    by (simp add: sum_product algebra_simps)
  also have "\<dots> = (\<Sum>l<n. \<Sum>m<n. \<Sum>l'<n. A l * B l' * (V m l * V m l'))"
    by (rule sum.swap)
  also have "\<dots> = (\<Sum>l<n. \<Sum>l'<n. \<Sum>m<n. A l * B l' * (V m l * V m l'))"
    by (rule sum.cong[OF refl]) (rule sum.swap)
  also have "\<dots> = (\<Sum>l<n. \<Sum>l'<n. A l * B l' * (\<Sum>m<n. V m l * V m l'))"
    by (simp add: sum_distrib_left)
  also have "\<dots> = (\<Sum>l<n. \<Sum>l'<n. A l * B l' * (if l = l' then 1 else 0))"
    using assms by (intro sum.cong refl) (simp add: orthonormal_def)
  also have "\<dots> = (\<Sum>l<n. A l * B l)"
  proof (rule sum.cong[OF refl])
    fix l assume "l \<in> {..<n}"
    then have "l < n" by simp
    from sum_delta_right[OF this, of "\<lambda>l'. A l * B l'"]
    show "(\<Sum>l'<n. A l * B l' * (if l = l' then 1 else 0)) = A l * B l" .
  qed
  finally show ?thesis .
qed

lemma mpow_spectral:
  assumes "spectral n V d M" "i < n" "j < n"
  shows "mpow n M (Suc k) i j = (\<Sum>l<n. V i l * d ! l ^ Suc k * V j l)"
  using assms(2,3)
proof (induction k arbitrary: i j)
  case 0
  have "(\<Sum>m<n. (if i = m then 1 else 0) * M m j) = M i j"
    using 0 by (intro sum_delta_left)
  then show ?case
    using assms(1) 0 by (simp add: spectral_def)
next
  case (Suc k)
  have "mpow n M (Suc (Suc k)) i j = (\<Sum>m<n. mpow n M (Suc k) i m * M m j)"
    by simp
  also have "\<dots> = (\<Sum>m<n. (\<Sum>l<n. (V i l * d ! l ^ Suc k) * V m l) * (\<Sum>l'<n. V m l' * (d ! l' * V j l')))"
    using assms(1) Suc by (intro sum.cong refl) (simp add: spectral_def mult.assoc)
  also have "\<dots> = (\<Sum>l<n. (V i l * d ! l ^ Suc k) * (d ! l * V j l))"
    using assms(1) by (intro orth_contract) (simp add: spectral_def)
  also have "\<dots> = (\<Sum>l<n. V i l * d ! l ^ Suc (Suc k) * V j l)"
    by (intro sum.cong refl) (simp add: algebra_simps)
  finally show ?case .
qed

lemma trace_spectral:
  assumes "spectral n V d M"
  shows "(\<Sum>i<n. mpow n M (Suc k) i i) = sum_list (map (\<lambda>x. x ^ Suc k) d)"
proof -
  have o: "orthonormal n V" and l: "length d = n"
    using assms by (simp_all add: spectral_def)
  have "(\<Sum>i<n. mpow n M (Suc k) i i) = (\<Sum>i<n. \<Sum>l<n. V i l * d ! l ^ Suc k * V i l)"
    using mpow_spectral[OF assms] by (intro sum.cong refl) simp
  also have "\<dots> = (\<Sum>l<n. \<Sum>i<n. d ! l ^ Suc k * (V i l * V i l))"
    by (subst sum.swap) (simp add: algebra_simps)
  also have "\<dots> = (\<Sum>l<n. d ! l ^ Suc k * (\<Sum>i<n. V i l * V i l))"
    by (simp add: sum_distrib_left)
  also have "\<dots> = (\<Sum>l<n. d ! l ^ Suc k)"
    using o by (intro sum.cong refl) (simp add: orthonormal_def)
  also have "\<dots> = sum_list (map (\<lambda>x. x ^ Suc k) d)"
    using l by (simp add: sum_list_sum_nth atLeast0LessThan)
  finally show ?thesis .
qed

lemma spectral_unique:
  assumes "spectral n V d M" "spectral n U e M"
  shows "count_list d x = count_list e x"
proof (rule power_sums_count)
  fix k
  show "sum_list (map (\<lambda>x. x ^ k) d) = sum_list (map (\<lambda>x. x ^ k) e)"
  proof (cases k)
    case 0
    then show ?thesis
      using assms by (simp add: spectral_def sum_list_triv)
  next
    case (Suc k')
    then show ?thesis
      using trace_spectral[OF assms(1), of k'] trace_spectral[OF assms(2), of k'] by simp
  qed
qed

text \<open>The Kronecker product of two decomposed matrices is decomposed by the Kronecker
  products of the eigenvector matrices and of the eigenvalue vectors.\<close>

lemma length_kron_vec [simp]: "length (kron_vec d e) = length d * length e"
  by (induction d) (simp_all add: kron_vec_def)

lemma kron_vec_tab: "kron_vec d e = tab (length d) (length e) (\<lambda>k m. d ! k * e ! m)"
proof -
  have "map (\<lambda>x. map (\<lambda>y. x * y) e) d = map (\<lambda>k. map (\<lambda>m. d ! k * e ! m) [0..<length e]) [0..<length d]"
    by (rule nth_equalityI) (auto intro: nth_equalityI)
  then show ?thesis
    by (simp add: kron_vec_def tab_def)
qed

lemma nth_kron_vec:
  assumes "l < length d * length e"
  shows "kron_vec d e ! l = d ! (l div length e) * e ! (l mod length e)"
proof -
  have e: "0 < length e"
    using assms by (cases "length e") auto
  have "l div length e < length d"
    using assms by (simp add: less_mult_imp_div_less)
  then have "tab (length d) (length e) (\<lambda>k m. d ! k * e ! m) ! (l div length e * length e + l mod length e)
         = d ! (l div length e) * e ! (l mod length e)"
    using e by (intro nth_tab) auto
  then show ?thesis
    by (simp add: kron_vec_tab)
qed

lemma spectral_kron:
  assumes A: "spectral a V d M" and B: "spectral b U e N"
  shows "spectral (a * b) (kronF b V U) (kron_vec d e) (kronF b M N)"
proof -
  have la: "length d = a" and lb: "length e = b"
    and oV: "orthonormal a V" and oU: "orthonormal b U"
    using A B by (simp_all add: spectral_def)
  have dm: "l div b < a \<and> l mod b < b" if "l < a * b" for l
  proof -
    have "0 < b" using that by (cases b) auto
    then show ?thesis using that by (simp add: less_mult_imp_div_less)
  qed
  have orth: "orthonormal (a * b) (kronF b V U)"
    unfolding orthonormal_def
  proof (intro allI impI)
    fix l m assume l: "l < a * b" and m: "m < a * b"
    have "(\<Sum>i<a * b. kronF b V U i l * kronF b V U i m)
        = (\<Sum>i<a * b. (V (i div b) (l div b) * V (i div b) (m div b)) * (U (i mod b) (l mod b) * U (i mod b) (m mod b)))"
      by (simp add: kronF_def algebra_simps)
    also have "\<dots> = (\<Sum>k<a. \<Sum>j<b. (V k (l div b) * V k (m div b)) * (U j (l mod b) * U j (m mod b)))"
      by (rule sum_div_mod)
    also have "\<dots> = (\<Sum>k<a. V k (l div b) * V k (m div b)) * (\<Sum>j<b. U j (l mod b) * U j (m mod b))"
      by (simp add: sum_product)
    also have "\<dots> = (if l div b = m div b then 1 else 0) * (if l mod b = m mod b then 1 else 0)"
      using oV oU dm[OF l] dm[OF m] by (simp add: orthonormal_def)
    also have "\<dots> = (if l = m then 1 else 0)"
    proof -
      have "l = m \<longleftrightarrow> l div b = m div b \<and> l mod b = m mod b"
        by (metis div_mult_mod_eq)
      then show ?thesis by simp
    qed
    finally show "(\<Sum>i<a * b. kronF b V U i l * kronF b V U i m) = (if l = m then 1 else 0)" .
  qed
  have dec: "kronF b M N r c = (\<Sum>l<a * b. kronF b V U r l * kron_vec d e ! l * kronF b V U c l)"
    if r: "r < a * b" and c: "c < a * b" for r c
  proof -
    have "(\<Sum>l<a * b. kronF b V U r l * kron_vec d e ! l * kronF b V U c l)
        = (\<Sum>l<a * b. (V (r div b) (l div b) * d ! (l div b) * V (c div b) (l div b))
                       * (U (r mod b) (l mod b) * e ! (l mod b) * U (c mod b) (l mod b)))"
      using la lb by (intro sum.cong refl) (simp add: nth_kron_vec kronF_def algebra_simps)
    also have "\<dots> = (\<Sum>k<a. \<Sum>j<b. (V (r div b) k * d ! k * V (c div b) k) * (U (r mod b) j * e ! j * U (c mod b) j))"
      by (rule sum_div_mod)
    also have "\<dots> = (\<Sum>k<a. V (r div b) k * d ! k * V (c div b) k) * (\<Sum>j<b. U (r mod b) j * e ! j * U (c mod b) j)"
      by (simp add: sum_product)
    also have "\<dots> = M (r div b) (c div b) * N (r mod b) (c mod b)"
      using A B dm[OF r] dm[OF c] by (simp add: spectral_def)
    finally show ?thesis
      by (simp add: kronF_def)
  qed
  show ?thesis
    using la lb orth dec by (simp add: spectral_def)
qed

text \<open>The same on tensors: \<open>kron\<close> and \<open>kron_list\<close> on decomposed matrices and on the
  columns of their eigenvalues.\<close>

lemma dec_spectral:
  assumes "eigen_decomposition K d"
  shows "\<exists>V. spectral (length d) V d (\<lambda>i j. fin_of (at2 K i j))"
  using assms by (auto simp: eigen_decomposition_def spectral_def)

lemma dec_unique:
  assumes "eigen_decomposition K d" "eigen_decomposition K e"
  shows "count_list d x = count_list e x"
proof -
  have l: "length e = length d"
    using assms by (simp add: eigen_decomposition_def)
  from dec_spectral[OF assms(1)] obtain V where V: "spectral (length d) V d (\<lambda>i j. fin_of (at2 K i j))" ..
  from dec_spectral[OF assms(2)] l obtain U where U: "spectral (length d) U e (\<lambda>i j. fin_of (at2 K i j))"
    by auto
  from spectral_unique[OF V U] show ?thesis .
qed

lemma dec_tab:
  assumes "eigen_decomposition K d"
  shows "K = Tensor2 (length d) (length d) (tab (length d) (length d) (\<lambda>i j. Fin (fin_of (at2 K i j))))"
proof -
  let ?n = "length d"
  have "buf K = tab ?n ?n (\<lambda>i j. buf K ! (i * ?n + j))"
    using assms by (intro buf_as_tab) (simp add: eigen_decomposition_def)
  also have "\<dots> = tab ?n ?n (\<lambda>i j. Fin (fin_of (at2 K i j)))"
    using assms by (intro tab_cong) (auto simp: eigen_decomposition_def at2_def)
  finally have "buf K = tab ?n ?n (\<lambda>i j. Fin (fin_of (at2 K i j)))" .
  moreover have "dim0 K = ?n" "dim1 K = ?n"
    using assms by (simp_all add: eigen_decomposition_def)
  ultimately show ?thesis
    by (cases K) simp
qed

lemma dec_intro:
  assumes "spectral n V d M"
  shows "eigen_decomposition (Tensor2 n n (tab n n (\<lambda>i j. Fin (M i j)))) d"
proof -
  have "at2 (Tensor2 n n (tab n n (\<lambda>i j. Fin (M i j)))) i j = Fin (\<Sum>l<n. V i l * d ! l * V j l)"
    if "i < n" "j < n" for i j
    using that assms by (simp add: at2_def nth_tab spectral_def)
  then show ?thesis
    using assms unfolding eigen_decomposition_def spectral_def by auto
qed

lemma fold_const: "(\<And>x. f x c = c) \<Longrightarrow> fold f xs c = c"
  by (induction xs) simp_all

lemma kron_empty:
  "kron (Tensor2 a a A) (Tensor2 0 0 []) = Some (Tensor2 0 0 ([] :: tfloat list))"
proof -
  have r: "kron_row (Tensor2 a a A) (Tensor2 0 0 []) i = Some (Tensor2 0 0 ([] :: tfloat list))" for i
    unfolding kron_row_def
    by (simp add: tf_zeros2_def) (rule fold_const, simp add: tf_concat1_def scale2_def)
  show ?thesis
    unfolding kron_def
    by (simp add: tf_zeros2_def) (rule fold_const, simp add: r tf_concat0_def)
qed

lemma kron_real:
  "kron (Tensor2 a a (tab a a (\<lambda>i j. Fin (M i j)))) (Tensor2 b b (tab b b (\<lambda>i j. Fin (N i j))))
     = Some (Tensor2 (a * b) (a * b) (tab (a * b) (a * b) (\<lambda>r c. Fin (kronF b M N r c))))"
proof (cases "b = 0")
  case True
  then show ?thesis
    using kron_empty[of a "tab a a (\<lambda>i j. Fin (M i j))"] by (simp add: tab_def)
next
  case False
  then have b: "0 < b" by simp
  let ?A = "tab a a (\<lambda>i j. Fin (M i j))" and ?B = "tab b b (\<lambda>i j. Fin (N i j))"
  have "tab (a * b) (a * b) (kron_entry a b ?A ?B) = tab (a * b) (a * b) (\<lambda>r c. Fin (kronF b M N r c))"
  proof (rule tab_cong)
    fix r c assume r: "r < a * b" and c: "c < a * b"
    have "r div b < a" "c div b < a" "r mod b < b" "c mod b < b"
      using r c b by (simp_all add: less_mult_imp_div_less)
    then show "kron_entry a b ?A ?B r c = Fin (kronF b M N r c)"
      by (simp add: kron_entry_def nth_tab kronF_def)
  qed
  then show ?thesis
    using kron_closed[of ?B b a ?A] b by simp
qed

lemma kron_dec:
  assumes "eigen_decomposition A d" "eigen_decomposition B e"
  shows "\<exists>K. kron A B = Some K \<and> eigen_decomposition K (kron_vec d e)"
proof -
  let ?M = "\<lambda>i j. fin_of (at2 A i j)" and ?N = "\<lambda>i j. fin_of (at2 B i j)"
  let ?a = "length d" and ?b = "length e"
  from dec_spectral[OF assms(1)] obtain V where V: "spectral ?a V d ?M" ..
  from dec_spectral[OF assms(2)] obtain U where U: "spectral ?b U e ?N" ..
  have "kron A B = Some (Tensor2 (?a * ?b) (?a * ?b) (tab (?a * ?b) (?a * ?b) (\<lambda>r c. Fin (kronF ?b ?M ?N r c))))"
    by (subst dec_tab[OF assms(1)], subst dec_tab[OF assms(2)]) (rule kron_real)
  moreover have "eigen_decomposition (Tensor2 (?a * ?b) (?a * ?b) (tab (?a * ?b) (?a * ?b) (\<lambda>r c. Fin (kronF ?b ?M ?N r c)))) (kron_vec d e)"
    by (rule dec_intro[OF spectral_kron[OF V U]])
  ultimately show ?thesis
    by simp
qed

lemma kron_cols:
  "kron (tf_expand_dims1 (map Fin d)) (tf_expand_dims1 (map Fin e)) = Some (tf_expand_dims1 (map Fin (kron_vec d e)))"
proof -
  let ?D = "map Fin d" and ?E = "map Fin e"
  let ?a = "length d" and ?b = "length e"
  have row: "kron_row (Tensor2 ?a 1 ?D) (Tensor2 ?b 1 ?E) i = Some (Tensor2 ?b 1 (map (\<lambda>y. ?D ! i * y) ?E))" for i
  proof -
    have "concat (map (\<lambda>j. row_of (Tensor2 ?b 0 []) j @ row_of (Tensor2 ?b 1 (map (\<lambda>y. ?D ! i * y) ?E)) j) [0..<?b])
          = concat (map (\<lambda>j. [map (\<lambda>y. ?D ! i * y) ?E ! j]) [0..<?b])"
      by (rule arg_cong[of _ _ concat], rule map_cong[OF refl])
         (simp add: row_of_def take_Suc_conv_app_nth)
    also have "\<dots> = map (\<lambda>j. map (\<lambda>y. ?D ! i * y) ?E ! j) [0..<?b]"
      by (rule concat_singletons)
    also have "\<dots> = map (\<lambda>y. ?D ! i * y) ?E"
      by (rule nth_equalityI) auto
    finally show ?thesis
      by (simp add: kron_row_def tf_zeros2_def tf_concat1_def scale2_def at2_def)
  qed
  have pre: "fold (\<lambda>i out. do { out' \<leftarrow> out; row \<leftarrow> kron_row (Tensor2 ?a 1 ?D) (Tensor2 ?b 1 ?E) i; tf_concat0 out' row })
           [0..<m] (Some (tf_zeros2 0 1))
         = Some (Tensor2 (m * ?b) 1 (concat (map (\<lambda>i. map (\<lambda>y. ?D ! i * y) ?E) [0..<m])))" for m
  proof (induction m)
    case 0
    then show ?case by (simp add: tf_zeros2_def)
  next
    case (Suc m)
    show ?case
      apply (simp only: upt_Suc_append[OF le0] fold_append o_apply fold.simps id_apply Suc bind.simps)
      apply (simp only: row bind.simps)
      apply (simp add: tf_concat0_def add.commute)
      done
  qed
  have "concat (map (\<lambda>i. map (\<lambda>y. ?D ! i * y) ?E) [0..<?a]) = map Fin (kron_vec d e)"
  proof -
    have "map (\<lambda>i. map (\<lambda>y. ?D ! i * y) ?E) [0..<?a] = map (map Fin) (map (\<lambda>x. map (\<lambda>y. x * y) e) d)"
      by (rule nth_equalityI) auto
    then show ?thesis
      by (simp add: kron_vec_def map_concat)
  qed
  then show ?thesis
    using pre[of ?a] by (simp add: kron_def tf_expand_dims1_def)
qed

lemma kron_fold_dec:
  assumes "eigen_decomposition out d" "\<forall>A\<in>set Ms. eigen_decomposition A (f A)"
  shows "\<exists>K. kron_fold out Ms = Some K \<and> eigen_decomposition K (foldl kron_vec d (map f Ms))"
  using assms
proof (induction Ms arbitrary: out d)
  case Nil
  then show ?case by simp
next
  case (Cons M Ms)
  from kron_dec[OF Cons.prems(1), of M "f M"] Cons.prems(2)
  obtain K where K: "kron out M = Some K" "eigen_decomposition K (kron_vec d (f M))"
    by auto
  from Cons.IH[OF K(2)] Cons.prems(2) K(1) show ?case
    by simp
qed

lemma kron_fold_cols:
  "kron_fold (tf_expand_dims1 (map Fin d)) (map (\<lambda>A. tf_expand_dims1 (map Fin (f A))) Ms)
     = Some (tf_expand_dims1 (map Fin (foldl kron_vec d (map f Ms))))"
  by (induction Ms arbitrary: d) (simp_all add: kron_cols)

lemma those_map_Some: "(\<forall>x\<in>set xs. g x = Some (h x)) \<Longrightarrow> those (map g xs) = Some (map h xs)"
  by (induction xs) simp_all

lemma count_list_map_Fin: "count_list (map Fin d) (Fin x) = count_list d x"
  by (induction d) simp_all

lemma count_list_map_Fin_NaN: "count_list (map Fin d) NaN = 0"
  by (induction d) simp_all

lemma same_entries_Fin:
  assumes "\<And>x. count_list d x = count_list e x"
  shows "same_entries (map Fin d) (map Fin e)"
  unfolding same_entries_def
proof
  fix y assume "y \<in> set (map Fin d @ map Fin e)"
  show "count_list (map Fin d) y = count_list (map Fin e) y"
    using assms by (cases y) (simp_all add: count_list_map_Fin count_list_map_Fin_NaN)
qed

lemma non_decreasing_Fin: "non_decreasing (map Fin d) = sorted d"
  by (simp add: non_decreasing_def sorted_wrt_map not_less)

lemma kron_eigs_dec:
  assumes kl: "kron_list Ks = Some K"
    and ok: "valid_eig eig (K # Ks)"
  shows "\<exists>d' dK. kron_eigs eig Ks = Some (map Fin d') \<and> eig K = Some (map Fin dK) \<and> sorted dK
           \<and> (\<forall>x. count_list d' x = count_list dK x)"
proof -
  from ok have "\<forall>A\<in>set (K # Ks). \<exists>d. eig A = Some (map Fin d) \<and> sorted d \<and> eigen_decomposition A d"
    unfolding valid_eig_def list_all_iff eigen_solution_def by blast
  from bchoice[OF this] obtain f where
    f: "\<forall>A\<in>set (K # Ks). eig A = Some (map Fin (f A)) \<and> sorted (f A) \<and> eigen_decomposition A (f A)" ..
  from kl obtain A B Ms where Ks: "Ks = A # B # Ms"
    by (cases Ks rule: kron_list.cases) auto
  let ?d = "foldl kron_vec (kron_vec (f A) (f B)) (map f Ms)"
  have "those (map (\<lambda>K. map_option tf_expand_dims1 (eig K)) Ks)
          = Some (map (\<lambda>A. tf_expand_dims1 (map Fin (f A))) Ks)"
    using f by (intro those_map_Some) simp
  moreover have "kron_list (map (\<lambda>A. tf_expand_dims1 (map Fin (f A))) Ks) = Some (tf_expand_dims1 (map Fin ?d))"
    by (simp add: Ks kron_cols kron_fold_cols)
  ultimately have e: "kron_eigs eig Ks = Some (map Fin ?d)"
    by (simp add: kron_eigs_def tf_flatten_def tf_expand_dims1_def)
  from kron_dec[of A "f A" B "f B"] f obtain K0 where
    K0: "kron A B = Some K0" "eigen_decomposition K0 (kron_vec (f A) (f B))"
    by (auto simp: Ks)
  from kron_fold_dec[OF K0(2), of Ms f] f obtain K' where
    K': "kron_fold K0 Ms = Some K'" "eigen_decomposition K' ?d"
    by (auto simp: Ks)
  have "K' = K"
    using kl K0(1) K'(1) by (simp add: Ks)
  with K'(2) have "eigen_decomposition K ?d"
    by simp
  moreover have "eigen_decomposition K (f K)" "eig K = Some (map Fin (f K))" "sorted (f K)"
    using f by simp_all
  ultimately show ?thesis
    using e dec_unique[of K ?d "f K"] by blast
qed

lemma marginal_as_kron_eigs: "marginal eig s None = kron_eigs eig (self_Ks s) \<bind> marginal_value s"
  by (simp add: marginal_def kron_eigs_def)

text \<open>Inference on the grid engine leaves \<^verbatim>\<open>alpha\<close> at zero: \<open>run\<close> takes two Newton
  steps and ends in \<open>grid_solver Ks W msk\<close>.\<close>

lemma g_obj:
  assumes "grid_fields Ks [Fin a, Fin b, Fin c, Fin d] msk s"
    and "msk = None \<or> msk = Some [False, True, False, False]"
  shows "eval_obj s (tf_zeros 4) (tf_zeros 4) = Some (Fin 0)"
  using assms
  by (auto simp: grid_fields_def eval_obj_def zeros4 tf_subtract_def tf_multiply_def tf_broadcast_def
      tf_reduce_sum_def weighted_log_like_def zero_tfloat_def tf_boolean_mask_def)

lemma g_prod:
  assumes "grid_fields Ks [Fin a, Fin b, Fin c, Fin d] msk s"
    and "self_W s = [Fin a, Fin b, Fin c, Fin d]" and "0 < a" "0 < b" "0 < c" "0 < d"
    and "kron_mvp Ks (tf_zeros 4) = Some (tf_zeros 4)"
  shows "cg_prod_step s (tf_zeros 4) = Some (tf_zeros 4)"
  using assms(1,2,7) assms(3-6)
  by (simp add: grid_fields_def cg_prod_step_def) (simp add: zeros4 tf_multiply_def tf_add_def tf_broadcast_def)

lemma g_cg:
  assumes "cg_prod_step s (tf_zeros 4) = Some (tf_zeros 4)"
  shows "cg (cg_prod_step s) (tf_zeros 4) None = Some (tf_zeros 4)"
proof -
  have "cg_from (cg_prod_step s) (tf_zeros 4) (tf_zeros 4) (cg_max_it (tf_zeros 4) None)
          = Some (tf_zeros 4, 0, tf_zeros 4, tf_zeros 4, cg_max_it (tf_zeros 4) None)"
    by (simp add: cg_from_def assms)
       (simp add: zeros4 tf_subtract_def tf_broadcast_def cg_loop_stop tf_reduce_sum_def zero_tfloat_def)
  moreover have "tf_zeros (length (tf_zeros 4)) = tf_zeros 4"
    by (simp add: tf_zeros_def)
  ultimately show ?thesis
    by (simp add: cg_def)
qed

lemma g_sobj:
  assumes "grid_fields Ks [Fin a, Fin b, Fin c, Fin d] msk s"
    and "msk = None \<or> msk = Some [False, True, False, False]"
    and "kron_mvp Ks (tf_zeros 4) = Some (tf_zeros 4)"
  shows "search_obj s (tf_zeros 4) (Fin x) = Some (Fin 0)"
proof -
  have "search_f s (tf_zeros 4) = Some (tf_zeros 4)"
    using assms by (auto simp: grid_fields_def search_f_def) (simp_all add: zeros4 tf_add_def tf_multiply_def tf_broadcast_def)
  moreover have "tf_add (self_alpha s) (scalar_mul (Fin x) (tf_zeros 4)) = Some (tf_zeros 4)"
    using assms(1) by (simp add: grid_fields_def) (simp add: zeros4 tf_add_def tf_broadcast_def scalar_mul_def)
  moreover have "squeeze_vec (tf_zeros 4) = Some (tf_zeros 4)"
    by (simp add: zeros4 squeeze_vec_def)
  ultimately show ?thesis
    using g_obj[OF assms(1,2)] by (simp add: search_obj_def)
qed

lemma g_ls:
  assumes "grid_fields Ks [Fin a, Fin b, Fin c, Fin d] msk s"
    and "msk = None \<or> msk = Some [False, True, False, False]"
    and "kron_mvp Ks (tf_zeros 4) = Some (tf_zeros 4)"
  shows "line_search s (tf_zeros 4) (Fin 0) 20 = Some (s, Fin 0)"
proof -
  have tau: "self_tau s = Fin (1 / 2)"
    using assms(1) by (simp add: grid_fields_def)
  have "line_loop s (Fin 0, Fin float_info_max, Fin 0, tf_zeros 4, Fin 2, 20, 1, Fin 0)
     = Some (s, (Fin 0, Fin 0, Fin 0, tf_zeros 4, Fin (1 / 262144), 20, 20, Fin 0))"
    by (simp add: line_loop.simps g_sobj[OF assms] tau float_info_max_def)
  then show ?thesis
    by (auto simp: line_search_def)
qed

lemma g_update:
  assumes "self_alpha s = tf_zeros 4"
  shows "step_update s (tf_zeros 4) (Fin 0) = Some s"
proof -
  have "tf_add (self_alpha s) (map (\<lambda>d. d * Fin 0) (tf_zeros 4)) = Some (tf_zeros 4)"
    using assms by (simp add: zeros4 tf_add_def tf_broadcast_def)
  moreover have "s\<lparr>self_alpha := tf_zeros 4\<rparr> = s"
    using assms by (cases s) simp
  moreover have "tf_where (map is_nan (tf_zeros 4)) (map (\<lambda>one. one * c) (tf_ones_like (tf_zeros 4))) (tf_zeros 4)
      = tf_zeros 4" for c
    by (simp add: zeros4 tf_where_def tf_ones_like_def)
  ultimately show ?thesis
    by (simp add: step_update_def Let_def)
qed

lemma g_step:
  assumes f: "grid_fields Ks [Fin a, Fin b, Fin c, Fin d] msk s"
    and m: "msk = None \<or> msk = Some [False, True, False, False]"
    and k: "kron_mvp Ks (tf_zeros 4) = Some (tf_zeros 4)"
    and p: "0 < a" "0 < b" "0 < c" "0 < d"
  shows "step s (max_it, it, Fin prev, delta)
     = Some (s\<lparr>self_f := tf_zeros 4, self_grads := tf_zeros 4, self_W := [Fin a, Fin b, Fin c, Fin d],
                self_b := Some (tf_zeros 4), self_z := Some (tf_zeros 4)\<rparr>,
             (max_it, it + 1, Fin 0, Fin prev))"
proof -
  let ?W = "[Fin a, Fin b, Fin c, Fin d]"
  let ?m = "s\<lparr>self_f := tf_zeros 4, self_grads := tf_zeros 4, self_W := ?W, self_b := Some (tf_zeros 4)\<rparr>"
  let ?z = "?m\<lparr>self_z := Some (tf_zeros 4)\<rparr>"
  have sf: "step_f s = Some (tf_zeros 4)"
    using f k by (simp add: grid_fields_def step_f_def) (simp add: zeros4 tf_add_def tf_multiply_def tf_broadcast_def)
  have fm: "grid_fields Ks ?W msk ?m" and fz: "grid_fields Ks ?W msk ?z"
    and f0: "grid_fields Ks ?W msk (s\<lparr>self_f := tf_zeros 4\<rparr>)"
    using f by (simp_all add: grid_fields_def)
  have o: "eval_obj (s\<lparr>self_f := tf_zeros 4\<rparr>) (tf_zeros 4) (tf_zeros 4) = Some (Fin 0)"
    by (rule g_obj[OF f0 m])
  have g: "self_grad_func s [Fin 0, Fin 0, Fin 0, Fin 0] [Fin 0, Fin 0, Fin 0, Fin 0] = [Fin 0, Fin 0, Fin 0, Fin 0]"
    and h: "self_hess_func s [Fin 0, Fin 0, Fin 0, Fin 0] [Fin 0, Fin 0, Fin 0, Fin 0] = [Fin (- a), Fin (- b), Fin (- c), Fin (- d)]"
    and y: "self_y s = [Fin 0, Fin 0, Fin 0, Fin 0]" and mu: "self_mu s = [Fin 0, Fin 0, Fin 0, Fin 0]"
    and al: "self_alpha s = [Fin 0, Fin 0, Fin 0, Fin 0]"
    and pc: "self_precondition s = Some [Fin 1, Fin 1, Fin 1, Fin 1]"
    using f by (simp_all add: grid_fields_def zeros4)
  have cgz: "cg (cg_prod_step ?m) (tf_zeros 4) None = Some (tf_zeros 4)"
    by (rule g_cg, rule g_prod[OF fm _ p k]) simp
  have ls: "line_search ?z (tf_zeros 4) (Fin 0) 20 = Some (?z, Fin 0)"
    by (rule g_ls[OF fz m k])
  have up: "step_update ?z (tf_zeros 4) (Fin 0) = Some ?z"
    by (rule g_update) (simp add: al zeros4)
  have nz: "a \<noteq> 0" "b \<noteq> 0" "c \<noteq> 0" "d \<noteq> 0" "\<not> a < 0" "\<not> b < 0" "\<not> c < 0" "\<not> d < 0"
    using p by simp_all
  show ?thesis
    apply (simp add: sf Let_def)
    apply (simp add: zeros4 g h y mu al pc nz tf_subtract_def tf_multiply_def tf_add_def tf_broadcast_def
        o[unfolded zeros4] cgz[unfolded zeros4] ls[unfolded zeros4] up[unfolded zeros4])
    done
qed

lemma g_init_fields: "grid_fields Ks W msk (grid_solver_init Ks W msk)"
  by (simp add: grid_fields_def grid_solver_init_def solver_init_def)

lemma g_after_fields: "grid_fields Ks W msk (grid_solver Ks W msk)"
  by (simp add: grid_fields_def grid_solver_def grid_solver_init_def solver_init_def)

lemma g_run:
  assumes m: "msk = None \<or> msk = Some [False, True, False, False]"
    and k: "kron_mvp Ks (tf_zeros 4) = Some (tf_zeros 4)"
    and p: "0 < a" "0 < b" "0 < c" "0 < d"
  shows "run (grid_solver_init Ks [Fin a, Fin b, Fin c, Fin d] msk) 10
           = Some (grid_solver Ks [Fin a, Fin b, Fin c, Fin d] msk, (10, 2, Fin 0, Fin 0))"
proof -
  let ?W = "[Fin a, Fin b, Fin c, Fin d]"
  let ?i = "grid_solver_init Ks ?W msk" and ?s = "grid_solver Ks ?W msk"
  have big: "1 < float_info_max * 100000"
    by (simp add: float_info_max_def)
  have e1: "?i\<lparr>self_f := tf_zeros 4, self_grads := tf_zeros 4, self_W := ?W,
               self_b := Some (tf_zeros 4), self_z := Some (tf_zeros 4)\<rparr> = ?s"
    and e2: "?s\<lparr>self_f := tf_zeros 4, self_grads := tf_zeros 4, self_W := ?W,
               self_b := Some (tf_zeros 4), self_z := Some (tf_zeros 4)\<rparr> = ?s"
    by (simp_all add: grid_solver_def grid_solver_init_def solver_init_def)
  have s1: "step ?i (10, 0, Fin float_info_max, Fin float_info_max) = Some (?s, (10, 1, Fin 0, Fin float_info_max))"
    using g_step[OF g_init_fields m k p, of 10 0 float_info_max "Fin float_info_max"] by (simp only: e1) simp
  have s2: "step ?s (10, 1, Fin 0, Fin float_info_max) = Some (?s, (10, 2, Fin 0, Fin 0))"
    using g_step[OF g_after_fields m k p, of 10 1 0 "Fin float_info_max"] by (simp only: e2) simp
  have l3: "newton_loop ?s (10, 2, Fin 0, Fin 0) = Some (?s, (10, 2, Fin 0, Fin 0))"
    by (subst newton_loop.simps) simp
  have l2: "newton_loop ?s (10, 1, Fin 0, Fin float_info_max) = Some (?s, (10, 2, Fin 0, Fin 0))"
    by (subst newton_loop.simps) (simp add: big s2 l3 del: step.simps)
  have l1: "newton_loop ?i (10, 0, Fin float_info_max, Fin float_info_max) = Some (?s, (10, 2, Fin 0, Fin 0))"
    by (subst newton_loop.simps) (simp add: big s1 l2 del: step.simps)
  have f: "self_Ks ?s = Ks" "self_alpha ?s = tf_zeros 4" "self_mu ?s = tf_zeros 4" "self_y ?s = tf_zeros 4"
    "self_k_diag ?s = Some [Fin 1, Fin 1, Fin 1, Fin 1]"
    "self_grad_func ?s = (\<lambda>y f. map (\<lambda>(w, y, f). w * (y - f)) (zip ?W (zip y f)))"
    using g_after_fields[of Ks ?W msk] by (simp_all add: grid_fields_def)
  have t: "tf_add (tf_zeros 4) (tf_zeros 4) = Some (tf_zeros 4)"
    "tf_multiply (tf_zeros 4) [Fin 1, Fin 1, Fin 1, Fin 1] = Some (tf_zeros 4)"
    by (simp_all add: zeros4 tf_add_def tf_multiply_def tf_broadcast_def)
  have e3: "?s\<lparr>self_f := tf_zeros 4, self_grads := tf_zeros 4\<rparr> = ?s"
    by (simp add: grid_solver_def grid_solver_init_def solver_init_def)
  have g: "map (\<lambda>(w, y, f). w * (y - f)) (zip ?W (zip (tf_zeros 4) (tf_zeros 4))) = tf_zeros 4"
    by (simp add: zeros4)
  show ?thesis
    by (simp add: run_def l1 f k t g e3)
qed

text \<open>The matrices of the grid engine, their Kronecker products and their eigenvalues.\<close>

lemma c1: "kron_list [D12, D13] = Some K1213" "kron_list [D13, D12] = Some K1312"
  by code_simp+

lemma c2: "diagonal_eig D12 = Some [Fin 1, Fin 2]" "diagonal_eig D13 = Some [Fin 1, Fin 3]"
  "diagonal_eig K1213 = Some [Fin 1, Fin 2, Fin 3, Fin 6]" "diagonal_eig K1312 = Some [Fin 1, Fin 2, Fin 3, Fin 6]"
  by code_simp+

lemma c3: "kron_eigs diagonal_eig [D12, D13] = Some [Fin 1, Fin 3, Fin 2, Fin 6]"
  "kron_eigs diagonal_eig [D13, D12] = Some [Fin 1, Fin 2, Fin 3, Fin 6]"
  by code_simp+

lemma c4: "kron_mvp [D13, D12] (tf_zeros 4) = Some (tf_zeros 4)" "kron_mvp [D12, D13] (tf_zeros 4) = Some (tf_zeros 4)"
  by code_simp+

lemma eigen_solution_concrete:
  assumes "K = Tensor2 (length d) (length d) B" "length B = length d * length d" "sorted d"
    and "orthonormal (length d) V"
    and "\<forall>i<length d. \<forall>j<length d. B ! (i * length d + j) = Fin (\<Sum>l<length d. V i l * d ! l * V j l)"
  shows "eigen_solution K (map Fin d)"
  unfolding eigen_solution_def eigen_decomposition_def
  using assms by (intro exI[of _ d]) (auto simp: at2_def)

lemma s_D12: "eigen_solution D12 [Fin 1, Fin 2]"
  using eigen_solution_concrete[of D12 "[1, 2]" "[Fin 1, Fin 0, Fin 0, Fin 2]" "\<lambda>i l. if i = l then 1 else 0"]
  by (simp add: D12_def orthonormal_def numeral_eq_Suc All_less_Suc)

lemma s_D13: "eigen_solution D13 [Fin 1, Fin 3]"
  using eigen_solution_concrete[of D13 "[1, 3]" "[Fin 1, Fin 0, Fin 0, Fin 3]" "\<lambda>i l. if i = l then 1 else 0"]
  by (simp add: D13_def orthonormal_def numeral_eq_Suc All_less_Suc)

lemma s_K2: "eigen_solution K1312 [Fin 1, Fin 2, Fin 3, Fin 6]"
  using eigen_solution_concrete[of K1312 "[1, 2, 3, 6]" "buf K1312" "\<lambda>i l. if i = l then 1 else 0"]
  by (simp add: K1312_def orthonormal_def numeral_eq_Suc All_less_Suc)

lemma s_K1: "eigen_solution K1213 [Fin 1, Fin 2, Fin 3, Fin 6]"
  using eigen_solution_concrete[of K1213 "[1, 2, 3, 6]" "buf K1213" "\<lambda>i l. if i = [0, 2, 1, 3] ! l then 1 else 0"]
  by (simp add: K1213_def orthonormal_def numeral_eq_Suc All_less_Suc)

text \<open>The specification of the eigenvalue solver is not confined to diagonal matrices: it
  holds of \<open>A_dense\<close> with \<open>[1, 2]\<close>, and of the Kronecker product of \<open>A_dense\<close> and
  \<open>diag(1, 2)\<close> with \<open>[1, 2, 2, 4]\<close>.\<close>

lemma dense_decomposition: "eigen_decomposition A_dense [1, 2]"
  unfolding eigen_decomposition_def
  apply (simp add: A_dense_def)
  apply (rule exI[of _ "\<lambda>i l. [[3 / 5, 4 / 5], [- (4 / 5), 3 / 5]] ! i ! l"])
  apply (simp add: orthonormal_def at2_def numeral_eq_Suc All_less_Suc)
  done

lemma D12_decomposition: "eigen_decomposition D12 [1, 2]"
  using s_D12 by (auto simp: eigen_solution_def)

lemma eigen_solution_dense:
  "eigen_solution A_dense [Fin 1, Fin 2]
   \<and> (\<exists>K. kron_list [A_dense, D12] = Some K \<and> eigen_solution K [Fin 1, Fin 2, Fin 2, Fin 4])"
proof -
  from kron_dec[OF dense_decomposition D12_decomposition] obtain K where
    K: "kron A_dense D12 = Some K" "eigen_decomposition K (kron_vec [1, 2] [1, 2])"
    by blast
  have "eigen_solution K (map Fin (kron_vec [1, 2] [1, 2]))"
    unfolding eigen_solution_def using K(2) by (intro exI[of _ "kron_vec [1, 2] [1, 2]"]) (simp add: kron_vec_def)
  moreover have "eigen_solution A_dense (map Fin [1, 2])"
    unfolding eigen_solution_def using dense_decomposition by (intro exI[of _ "[1, 2]"]) simp
  ultimately show ?thesis
    using K(1) by (simp add: kron_vec_def)
qed

text \<open>The marginal likelihood formula on the grid engine after \<open>run\<close>.\<close>

lemma ga_fields:
  "self_mask (grid_solver Ks W msk) = msk" "self_f (grid_solver Ks W msk) = tf_zeros 4"
  "self_mu (grid_solver Ks W msk) = tf_zeros 4" "self_alpha (grid_solver Ks W msk) = tf_zeros 4"
  "self_W (grid_solver Ks W msk) = W" "self_y (grid_solver Ks W msk) = tf_zeros 4"
  "self_log_like (grid_solver Ks W msk) = weighted_log_like (map (\<lambda>w. Fin (1 / 2) * w) W)"
  "self_Ks (grid_solver Ks W msk) = Ks"
  by (simp_all add: grid_solver_def grid_solver_init_def solver_init_def)

lemma mv_none: "marginal_value (grid_solver Ks W0 None) [Fin a, Fin b, Fin c, Fin d]
  = Some (Fin (- (1 / 2)) * Fin 0 - Fin (1 / 2) * (tf_log (Fin (1 + a)) + (tf_log (Fin (1 + b * 4)) + (tf_log (Fin (1 + c)) + (tf_log (Fin (1 + d)) + 0)))) + Fin 0)"
  by (simp add: marginal_value_def ga_fields zeros4 W0_def tf_subtract_def tf_multiply_def tf_broadcast_def
    tf_reduce_sum_def weighted_log_like_def zero_tfloat_def del: tf_log.simps)

lemma mv_mask: "marginal_value (grid_solver Ks W1 (Some grid_mask)) [Fin a, Fin b, Fin c, Fin d]
  = Some (Fin (- (1 / 2)) * Fin 0 - Fin (1 / 2) * (tf_log (Fin (1 + b)) + 0) + Fin 0)"
  by (simp add: marginal_value_def ga_fields zeros4 W1_def grid_mask_def tf_subtract_def tf_multiply_def tf_broadcast_def
    tf_reduce_sum_def weighted_log_like_def zero_tfloat_def tf_boolean_mask_def squeeze_vec_def del: tf_log.simps)

lemma v1: "valid_eig diagonal_eig [K1213, D12, D13]"
  using s_K1 s_D12 s_D13 by (simp add: valid_eig_def c2)

lemma v2: "valid_eig diagonal_eig [K1312, D13, D12]"
  using s_K2 s_D12 s_D13 by (simp add: valid_eig_def c2)

text \<open>
  Claim C2, as the code has it. Let the eigenvalue solver return, for every kernel matrix
  and for \<open>K = kron_list(Ks)\<close>, the eigenvalues of a decomposition \<open>V diag(e) V\<^sup>T\<close> with
  orthonormal \<open>V\<close>, in non-decreasing order. Then the flattened Kronecker product of the
  per-dimension eigenvalue vectors that \<open>marginal\<close> uses holds the eigenvalues of \<open>K\<close>, each
  as often as \<open>K\<close> has it, but in Kronecker order; \<open>marginal\<close> is the marginal likelihood
  formula at that vector and the explicit computation is the same formula at the
  non-decreasing vector. The two values are equal when the Kronecker order is
  non-decreasing, and when there is no mask and \<^verbatim>\<open>W\<close> has the same value at every grid
  point.
\<close>

theorem marginal_kron_eigs_permuted:
  assumes "kron_list (self_Ks s) = Some K"
    and "valid_eig eig (K # self_Ks s)"
  shows "\<exists>eig_kron eig_K.
           kron_eigs eig (self_Ks s) = Some eig_kron \<and> eig K = Some eig_K \<and> same_entries eig_kron eig_K
           \<and> marginal eig s None = marginal_value s eig_kron
           \<and> marginal_explicit eig s = marginal_value s eig_K
           \<and> (non_decreasing eig_kron \<or> (self_mask s = None \<and> (\<exists>w. self_W s = replicate (length eig_K) w))
                \<longrightarrow> marginal eig s None = marginal_explicit eig s)"
proof -
  from kron_eigs_dec[OF assms] obtain d' dK where
    d: "kron_eigs eig (self_Ks s) = Some (map Fin d')" "eig K = Some (map Fin dK)" "sorted dK"
       "\<And>x. count_list d' x = count_list dK x"
    by blast
  have se: "same_entries (map Fin d') (map Fin dK)"
    using d(4) by (rule same_entries_Fin)
  have se': "same_entries (map Fin dK) (map Fin d')"
    using d(4)[symmetric] by (rule same_entries_Fin)
  have m1: "marginal eig s None = marginal_value s (map Fin d')"
    by (simp add: marginal_as_kron_eigs d(1))
  have m2: "marginal_explicit eig s = marginal_value s (map Fin dK)"
    using assms(1) d(2) by (simp add: marginal_explicit_def)
  have "marginal eig s None = marginal_explicit eig s" if "non_decreasing (map Fin d')"
  proof -
    from that have "sorted d'" by (simp add: non_decreasing_Fin)
    from sorted_count_unique[OF this d(3) d(4)] show ?thesis
      by (simp add: m1 m2)
  qed
  moreover have "marginal eig s None = marginal_explicit eig s"
    if "self_mask s = None" "self_W s = replicate (length (map Fin dK)) w" for w
    using marginal_value_constant_W[OF that(1) se' that(2)] by (simp add: m1 m2)
  ultimately show ?thesis
    using d(1,2) se m1 m2 by blast
qed

theorem marginal_kron_eigs_permuted_witness:
  "run (grid_solver_init [D13, D12] W0 None) 10 = Some (grid_solver [D13, D12] W0 None, (10, 2, Fin 0, Fin 0))
   \<and> valid_eig diagonal_eig [K1312, D13, D12]
   \<and> kron_eigs diagonal_eig [D13, D12] = Some [Fin 1, Fin 2, Fin 3, Fin 6]
   \<and> marginal diagonal_eig (grid_solver [D13, D12] W0 None) None
       = marginal_explicit diagonal_eig (grid_solver [D13, D12] W0 None)
   \<and> marginal_explicit diagonal_eig (grid_solver [D13, D12] W0 None) = Some (Fin (- (ln 504 / 2)))"
proof -
  let ?s = "grid_solver [D13, D12] W0 None"
  have r: "run (grid_solver_init [D13, D12] W0 None) 10 = Some (?s, (10, 2, Fin 0, Fin 0))"
    unfolding W0_def by (rule g_run) (simp_all add: c4)
  have k: "kron_list (self_Ks ?s) = Some K1312"
    by (simp only: ga_fields c1)
  have v: "valid_eig diagonal_eig (K1312 # self_Ks ?s)"
    by (simp add: ga_fields v2)
  from marginal_kron_eigs_permuted [OF k v] obtain eig_kron eig_K where
    e: "kron_eigs diagonal_eig (self_Ks ?s) = Some eig_kron" "diagonal_eig K1312 = Some eig_K"
       "marginal_explicit diagonal_eig ?s = marginal_value ?s eig_K"
       "non_decreasing eig_kron \<or> (self_mask ?s = None \<and> (\<exists>w. self_W ?s = replicate (length eig_K) w))
            \<longrightarrow> marginal diagonal_eig ?s None = marginal_explicit diagonal_eig ?s"
    by blast
  have ek: "eig_kron = [Fin 1, Fin 2, Fin 3, Fin 6]" and eK: "eig_K = [Fin 1, Fin 2, Fin 3, Fin 6]"
    using e(1,2) by (simp_all add: ga_fields c3 c2)
  have "non_decreasing eig_kron"
    by (simp add: ek non_decreasing_def)
  with e(4) have eq: "marginal diagonal_eig ?s None = marginal_explicit diagonal_eig ?s"
    by simp
  have b: "ln 2 + (ln 9 + (ln 4 + ln 7)) = (ln 504 :: real)"
    using ln_mult[of 2 "252::real"] ln_mult[of 9 "28::real"] ln_mult[of 4 "7::real"] by simp
  have "marginal_explicit diagonal_eig ?s = Some (Fin (- (ln 504 / 2)))"
    unfolding e(3) eK mv_none by (simp add: zero_tfloat_def b)
  with r v2 c3(2) eq show ?thesis
    by simp
qed

text \<open>
  Claim C2 as stated fails, on engine states that \<open>run\<close> reaches and with an eigenvalue
  solver that is right on every matrix involved. On the 2 x 2 grid with kernel matrices
  \<open>diag(1, 2)\<close> and \<open>diag(1, 3)\<close> the Kronecker product of the eigenvalue vectors is
  \<open>[1, 3, 2, 6]\<close> and the eigenvalues of the dense \<open>K\<close> are \<open>[1, 2, 3, 6]\<close>. Without a
  mask and with \<^verbatim>\<open>W\<close> = \<open>[1, 4, 1, 1]\<close> the two marginal likelihoods are \<open>- ln 546 / 2\<close>
  and \<open>- ln 504 / 2\<close>; with \<^verbatim>\<open>W\<close> = \<open>[1, 1, 1, 1]\<close> and the mask that keeps the second grid
  point only they are \<open>- ln 4 / 2\<close> and \<open>- ln 3 / 2\<close>.
\<close>

theorem marginal_kron_eigs_counterexample:
  "run (grid_solver_init [D12, D13] W0 None) 10 = Some (grid_solver [D12, D13] W0 None, (10, 2, Fin 0, Fin 0))
   \<and> kron_list [D12, D13] = Some K1213 \<and> valid_eig diagonal_eig [K1213, D12, D13]
   \<and> marginal diagonal_eig (grid_solver [D12, D13] W0 None) None = Some (Fin (- (ln 546 / 2)))
   \<and> marginal_explicit diagonal_eig (grid_solver [D12, D13] W0 None) = Some (Fin (- (ln 504 / 2)))
   \<and> ln 546 \<noteq> (ln 504 :: real)
   \<and> run (grid_solver_init [D12, D13] W1 (Some grid_mask)) 10 = Some (grid_solver [D12, D13] W1 (Some grid_mask), (10, 2, Fin 0, Fin 0))
   \<and> marginal diagonal_eig (grid_solver [D12, D13] W1 (Some grid_mask)) None = Some (Fin (- (ln 4 / 2)))
   \<and> marginal_explicit diagonal_eig (grid_solver [D12, D13] W1 (Some grid_mask)) = Some (Fin (- (ln 3 / 2)))
   \<and> ln 4 \<noteq> (ln 3 :: real)"
proof -
  have r1: "run (grid_solver_init [D12, D13] W0 None) 10 = Some (grid_solver [D12, D13] W0 None, (10, 2, Fin 0, Fin 0))"
    unfolding W0_def by (rule g_run) (simp_all add: c4)
  have r2: "run (grid_solver_init [D12, D13] W1 (Some grid_mask)) 10 = Some (grid_solver [D12, D13] W1 (Some grid_mask), (10, 2, Fin 0, Fin 0))"
    unfolding W1_def grid_mask_def by (rule g_run) (simp_all add: c4)
  have a: "ln 2 + (ln 13 + (ln 3 + ln 7)) = (ln 546 :: real)"
    using ln_mult[of 2 "273::real"] ln_mult[of 13 "21::real"] ln_mult[of 3 "7::real"] by simp
  have b: "ln 2 + (ln 9 + (ln 4 + ln 7)) = (ln 504 :: real)"
    using ln_mult[of 2 "252::real"] ln_mult[of 9 "28::real"] ln_mult[of 4 "7::real"] by simp
  have m: "marginal diagonal_eig (grid_solver [D12, D13] W msk) None
             = marginal_value (grid_solver [D12, D13] W msk) [Fin 1, Fin 3, Fin 2, Fin 6]"
    "marginal_explicit diagonal_eig (grid_solver [D12, D13] W msk)
             = marginal_value (grid_solver [D12, D13] W msk) [Fin 1, Fin 2, Fin 3, Fin 6]" for W msk
    by (simp_all add: marginal_as_kron_eigs marginal_explicit_def ga_fields c1 c2 c3 del: kron_list.simps)
  have "marginal diagonal_eig (grid_solver [D12, D13] W0 None) None = Some (Fin (- (ln 546 / 2)))
      \<and> marginal_explicit diagonal_eig (grid_solver [D12, D13] W0 None) = Some (Fin (- (ln 504 / 2)))
      \<and> ln 546 \<noteq> (ln 504 :: real)"
    unfolding m mv_none by (simp add: zero_tfloat_def a b)
  moreover have "marginal diagonal_eig (grid_solver [D12, D13] W1 (Some grid_mask)) None = Some (Fin (- (ln 4 / 2)))
      \<and> marginal_explicit diagonal_eig (grid_solver [D12, D13] W1 (Some grid_mask)) = Some (Fin (- (ln 3 / 2)))
      \<and> ln 4 \<noteq> (ln 3 :: real)"
    unfolding m mv_mask by (simp add: zero_tfloat_def)
  ultimately show ?thesis
    using r1 r2 c1(1) v1 by simp
qed

end
